theory Spec2Isabelle
  imports Complex_Main "HOL-Library.Multiset" "HOL-Library.Log_Nat"
begin

section \<open>Configuration constants (elk-cursor.py, lines 16-39)\<close>

definition MAX_RESTORE_BYTES :: int where
  "MAX_RESTORE_BYTES = 500 * 10 ^ 9"

definition SYSTEM_INDICES :: "string list" where
  "SYSTEM_INDICES =
     [''.kibana'', ''.kibana_'', ''.security'', ''.apm'', ''.async-search'',
      ''.ds-'', ''.internal.'', ''.slo-'']"

section \<open>Selection (is_system_index, pick_indices_to_restore)\<close>

text \<open>Python's \<^verbatim>\<open>s.startswith(p)\<close> and \<^verbatim>\<open>s.endswith(p)\<close> on strings.\<close>

definition startswith :: "string \<Rightarrow> string \<Rightarrow> bool" where
  "startswith s p = (take (length p) s = p)"

definition endswith :: "string \<Rightarrow> string \<Rightarrow> bool" where
  "endswith s p = (length p \<le> length s \<and> drop (length s - length p) s = p)"

text \<open>\<^verbatim>\<open>any(index_name.startswith(prefix) for prefix in SYSTEM_INDICES)\<close>\<close>

definition is_system_index :: "string \<Rightarrow> bool" where
  "is_system_index index_name = list_ex (startswith index_name) SYSTEM_INDICES"

text \<open>
  An entry of the dictionary returned by \<^verbatim>\<open>get_local_indices\<close>:
  \<^verbatim>\<open>{'docs': docs, 'size': size_bytes}\<close>. The entry always has both keys, so it is never
  falsy and \<^verbatim>\<open>not local\<close> holds exactly when \<^verbatim>\<open>local_indices.get(idx)\<close> is \<^verbatim>\<open>None\<close>.
\<close>

record local_index =
  li_docs :: int
  li_size :: int

text \<open>
  The snapshot dictionary is an association list in the dictionary's iteration order
  (name, size in bytes); the local dictionary is only looked up, so it is a map.
\<close>

type_synonym snapshot_indices = "(string \<times> int) list"
type_synonym local_indices = "string \<rightharpoonup> local_index"

text \<open>The test \<^verbatim>\<open>not local or snap_size > local['size']\<close> of line 157.\<close>

definition needs_restore :: "local_indices \<Rightarrow> string \<Rightarrow> int \<Rightarrow> bool" where
  "needs_restore local_idx idx snap_size =
     (case local_idx idx of None \<Rightarrow> True | Some l \<Rightarrow> snap_size > li_size l)"

text \<open>The first loop (lines 149-159): the list \<^verbatim>\<open>to_restore\<close> before sorting.\<close>

fun to_restore :: "snapshot_indices \<Rightarrow> local_indices \<Rightarrow> (string \<times> int) list" where
  "to_restore [] local_idx = []"
| "to_restore ((idx, snap_size) # rest) local_idx =
     (if is_system_index idx then to_restore rest local_idx
      else if needs_restore local_idx idx snap_size
           then (idx, snap_size) # to_restore rest local_idx
           else to_restore rest local_idx)"

text \<open>
  \<^verbatim>\<open>to_restore.sort(key=lambda x: -x[1])\<close> (line 162): Python's sort is stable, and so
  is \<^const>\<open>sort_key\<close>.
\<close>

definition sorted_to_restore :: "snapshot_indices \<Rightarrow> local_indices \<Rightarrow> (string \<times> int) list" where
  "sorted_to_restore snap local_idx = sort_key (\<lambda>x. - snd x) (to_restore snap local_idx)"

text \<open>
  The second loop (lines 163-170), with the loop variables \<^verbatim>\<open>batch\<close> and \<^verbatim>\<open>total\<close> (here \<open>tot\<close>)
  as accumulators; \<^verbatim>\<open>break\<close> returns the batch built so far.
\<close>

fun accumulate :: "(string \<times> int) list \<Rightarrow> string list \<Rightarrow> int \<Rightarrow> string list" where
  "accumulate [] batch tot = batch"
| "accumulate ((idx, sz) # rest) batch tot =
     (if tot + sz > MAX_RESTORE_BYTES then batch
      else accumulate rest (batch @ [idx]) (tot + sz))"

definition pick_indices_to_restore :: "snapshot_indices \<Rightarrow> local_indices \<Rightarrow> string list" where
  "pick_indices_to_restore snap local_idx = accumulate (sorted_to_restore snap local_idx) [] 0"

text \<open>The snapshot size of a name, \<^verbatim>\<open>snapshot_indices[idx]\<close>, for stating properties.\<close>

definition snapshot_size :: "snapshot_indices \<Rightarrow> string \<Rightarrow> int" where
  "snapshot_size snap idx = (case map_of snap idx of None \<Rightarrow> 0 | Some s \<Rightarrow> s)"

section \<open>The cluster's HTTP surface\<close>

text \<open>
  A call of \<^verbatim>\<open>requests.get\<close> or \<^verbatim>\<open>requests.post\<close> either raises a
  \<^verbatim>\<open>RequestException\<close> (no connection, timeout) or returns a response. In
  \<open>Response ok body\<close>, \<open>ok\<close> is \<^verbatim>\<open>r.ok\<close>: \<^verbatim>\<open>r.raise_for_status()\<close> raises an
  \<^verbatim>\<open>HTTPError\<close>, which is a \<^verbatim>\<open>RequestException\<close>, exactly when \<open>ok\<close> is false.
  \<open>body\<close> is the part of the decoded JSON body that the caller reads; bodies are taken
  to be well-formed JSON of the shape the cluster documents.
\<close>

datatype 'a response = RequestException | Response bool 'a

datatype cluster = ACTIVE_CLUSTER | PASSIVE_CLUSTER

text \<open>The requests the script issues, recorded in the order they are sent.\<close>

datatype request =
    Get_repository cluster
  | Get_repository_status cluster
  | Get_cat_snapshots
  | Get_snapshot_status string
  | Get_cat_indices
  | Post_close string
  | Get_count cluster string
  | Get_snapshot string
  | Post_restore string string
  | Get_health string
  | Post_open string
  | Get_health_wait_green string

section \<open>Single calls (close_index, get_index_doc_count, verify_restore_success, open_index)\<close>

definition close_index :: "unit response \<Rightarrow> bool" where
  "close_index r = (case r of RequestException \<Rightarrow> False | Response ok _ \<Rightarrow> ok)"

text \<open>\<^verbatim>\<open>None\<close> is the failure sentinel; the body is \<^verbatim>\<open>r.json()['count']\<close>.\<close>

definition get_index_doc_count :: "int response \<Rightarrow> int option" where
  "get_index_doc_count r =
     (case r of RequestException \<Rightarrow> None
      | Response ok cnt \<Rightarrow> if ok then Some cnt else None)"

definition verify_restore_success :: "int response \<Rightarrow> int \<Rightarrow> bool" where
  "verify_restore_success r expected_docs =
     (case get_index_doc_count r of
        None \<Rightarrow> False
      | Some actual_docs \<Rightarrow> if actual_docs = expected_docs then True else False)"

definition open_index :: "unit response \<Rightarrow> bool" where
  "open_index r = (case r of RequestException \<Rightarrow> False | Response ok _ \<Rightarrow> ok)"

section \<open>The restore driver (restore_index)\<close>

text \<open>
  What the passive cluster answers during one iteration of the polling loop: the answer to
  \<^verbatim>\<open>GET /_cluster/health/{index}\<close>, whose body is read with
  \<^verbatim>\<open>health_data.get('status')\<close> (the shard counts are only logged), and the answer
  to \<^verbatim>\<open>GET /{index}/_count\<close>, which is requested only when the status is green.
\<close>

record poll =
  health :: "string option response"
  doc_count :: "int response"

definition max_attempts :: nat where
  "max_attempts = 30"

text \<open>
  The loop of lines 244-273. \<open>attempt\<close> is the loop variable of the source; \<open>polled\<close>
  counts the health requests sent so far and is the position in the simulated sequence
  \<open>env\<close> of answers; \<open>reqs\<close> are the requests sent so far. The result is the returned
  value, the number of health requests sent and all requests. The pauses
  (\<^verbatim>\<open>time.sleep(10)\<close>) are not recorded.
\<close>

function poll_loop ::
  "string \<Rightarrow> int \<Rightarrow> (nat \<Rightarrow> poll) \<Rightarrow> nat \<Rightarrow> nat \<Rightarrow> request list \<Rightarrow> bool \<times> nat \<times> request list"
where
  "poll_loop index expected_docs env attempt polled reqs =
     (if attempt < max_attempts then
        (case health (env polled) of
           RequestException \<Rightarrow>
             poll_loop index expected_docs env (attempt + 1) (polled + 1) (reqs @ [Get_health index])
         | Response ok status \<Rightarrow>
             if ok then
               if status = Some ''green'' then
                 if verify_restore_success (doc_count (env polled)) expected_docs
                 then (True, polled + 1,
                       reqs @ [Get_health index, Get_count PASSIVE_CLUSTER index])
                 else poll_loop index expected_docs env (attempt + 1) (polled + 1)
                        (reqs @ [Get_health index, Get_count PASSIVE_CLUSTER index])
               else poll_loop index expected_docs env (attempt + 1) (polled + 1)
                      (reqs @ [Get_health index])
             else poll_loop index expected_docs env (attempt + 1) (polled + 1)
                    (reqs @ [Get_health index]))
      else (False, polled, reqs))"
  by pat_completeness auto
termination
  by (relation "measure (\<lambda>(index, expected_docs, env, attempt, polled, reqs). max_attempts - attempt)")
    auto

text \<open>What the passive and the active cluster answer to the requests about one index.\<close>

record index_world =
  active_count :: "int response"
  close_response :: "unit response"
  snapshot_response :: "unit response"
  restore_response :: "unit response"
  health_polls :: "nat \<Rightarrow> poll"
  open_response :: "unit response"
  green_polls :: "nat \<Rightarrow> string response"

text \<open>
  \<^verbatim>\<open>restore_index(snapshot, index, expected_docs)\<close>: a \<^verbatim>\<open>RequestException\<close> of the two
  requests before the loop is caught by the outer handler (lines 278-280).
\<close>

definition restore_index ::
  "string \<Rightarrow> string \<Rightarrow> int \<Rightarrow> index_world \<Rightarrow> bool \<times> nat \<times> request list"
where
  "restore_index snapshot index expected_docs w =
     (case snapshot_response w of
        RequestException \<Rightarrow> (False, 0, [Get_snapshot snapshot])
      | Response verify_ok _ \<Rightarrow>
          if \<not> verify_ok then (False, 0, [Get_snapshot snapshot])
          else (case restore_response w of
                  RequestException \<Rightarrow>
                    (False, 0, [Get_snapshot snapshot, Post_restore snapshot index])
                | Response r_ok _ \<Rightarrow>
                    if \<not> r_ok then (False, 0, [Get_snapshot snapshot, Post_restore snapshot index])
                    else poll_loop index expected_docs (health_polls w) 0 0
                           [Get_snapshot snapshot, Post_restore snapshot index]))"

text \<open>
  A poll at which the driver reports success: the index is green and the live document
  count equals the expected one.
\<close>

definition green_and_matching :: "int \<Rightarrow> poll \<Rightarrow> bool" where
  "green_and_matching expected_docs p =
     (health p = Response True (Some ''green'') \<and> doc_count p = Response True expected_docs)"

section \<open>The built-in conversions \<^verbatim>\<open>int\<close> and \<^verbatim>\<open>float\<close>\<close>

text \<open>
  The size strings are converted with Python's \<^verbatim>\<open>float(str)\<close>, \<^verbatim>\<open>int(str)\<close> and
  \<^verbatim>\<open>int(float)\<close>. They are modelled on ASCII strings: surrounding white space is
  stripped, an underscore may stand between two digits, \<^verbatim>\<open>float\<close> reads a sign, a
  decimal numeral with an optional exponent, or \<^verbatim>\<open>inf\<close>, \<^verbatim>\<open>infinity\<close>, \<^verbatim>\<open>nan\<close> in any case,
  and \<^verbatim>\<open>int\<close> reads a sign and decimal digits. The two exceptions that the conversions
  raise here:
\<close>

datatype py_exception = ValueError | OverflowError

definition is_digit :: "char \<Rightarrow> bool" where
  "is_digit c = (c \<in> set ''0123456789'')"

definition digit_value :: "char \<Rightarrow> nat" where
  "digit_value c = of_char c - 48"

definition digits_value :: "string \<Rightarrow> nat" where
  "digits_value ds = fold (\<lambda>c n. 10 * n + digit_value c) ds 0"

definition is_space :: "char \<Rightarrow> bool" where
  "is_space c = (c \<in> set [CHR '' '', CHR 0x09, CHR 0x0A, CHR 0x0B, CHR 0x0C, CHR 0x0D])"

definition strip :: "string \<Rightarrow> string" where
  "strip s = rev (dropWhile is_space (rev (dropWhile is_space s)))"

definition lower :: "char \<Rightarrow> char" where
  "lower c = (case map_of (zip ''ABCDEFGHIJKLMNOPQRSTUVWXYZ'' ''abcdefghijklmnopqrstuvwxyz'') c of
                None \<Rightarrow> c | Some d \<Rightarrow> d)"

text \<open>
  An underscore is accepted only after a digit and before a digit; \<open>prev\<close> is the
  character before, the result is the string without its underscores.
\<close>

fun remove_underscores :: "char option \<Rightarrow> string \<Rightarrow> string option" where
  "remove_underscores prev [] = (if prev = Some CHR ''_'' then None else Some [])"
| "remove_underscores prev (c # cs) =
     (if c = CHR ''_'' then
        (case prev of None \<Rightarrow> None
         | Some p \<Rightarrow> if is_digit p then remove_underscores (Some c) cs else None)
      else if prev = Some CHR ''_'' \<and> \<not> is_digit c then None
      else map_option ((#) c) (remove_underscores (Some c) cs))"

definition split_sign :: "string \<Rightarrow> bool \<times> string" where
  "split_sign s =
     (case s of [] \<Rightarrow> (False, [])
      | c # cs \<Rightarrow> if c = CHR ''-'' then (True, cs) else if c = CHR ''+'' then (False, cs) else (False, s))"

text \<open>
  A Python \<^verbatim>\<open>float\<close> is a binary64 number: a finite value, kept as the rational it
  denotes, an infinity or a NaN. (The sign of a zero plays no part here.)
\<close>

datatype pyfloat = Finite rat | PosInf | NegInf | NaN

definition round_half_even :: "rat \<Rightarrow> int" where
  "round_half_even x =
     (let f = \<lfloor>x\<rfloor>; d = x - of_int f
      in if d < 1 / 2 then f else if d > 1 / 2 then f + 1 else if even f then f else f + 1)"

text \<open>
  For \<open>x > 0\<close>, the exponent \<open>e\<close> with \<open>2 powi e \<le> x < 2 powi (e + 1)\<close>, computed from
  the bit lengths of numerator and denominator.
\<close>

definition binade :: "rat \<Rightarrow> int" where
  "binade x = (let (a, b) = quotient_of x; d = bitlen a - bitlen b
               in if 2 powi d \<le> x then d else d - 1)"

text \<open>
  Rounding to the nearest binary64 number, ties to even: 53 significant bits, the least
  exponent of a normal number is \<open>- 1022\<close>, below it the spacing stays \<open>2 powi (- 1074)\<close>;
  a result of magnitude \<open>2 powi 1024\<close> or more is an infinity.
\<close>

definition round_double :: "rat \<Rightarrow> pyfloat" where
  "round_double x =
     (if x = 0 then Finite 0
      else let e = max (binade \<bar>x\<bar>) (- 1022);
               u = 2 powi (e - 52);
               v = of_int (round_half_even (x / u)) * u
           in if \<bar>v\<bar> \<ge> 2 powi 1024 then (if x > 0 then PosInf else NegInf) else Finite v)"

text \<open>
  The unsigned decimal numeral of \<^verbatim>\<open>float\<close>: digits, optionally a point and digits,
  with at least one digit in all, optionally an exponent \<^verbatim>\<open>e\<close> or \<^verbatim>\<open>E\<close> with a sign
  and at least one digit. The result is the exact value.
\<close>

definition parse_decimal :: "string \<Rightarrow> rat option" where
  "parse_decimal s =
     (let ip = takeWhile is_digit s; r1 = dropWhile is_digit s;
          (fp, r2) = (case r1 of [] \<Rightarrow> ([], [])
                      | c # t \<Rightarrow> if c = CHR ''.'' then (takeWhile is_digit t, dropWhile is_digit t)
                                 else ([], r1));
          mantissa = of_nat (digits_value (ip @ fp)) :: rat
      in if ip = [] \<and> fp = [] then None
         else (case r2 of
                 [] \<Rightarrow> Some (mantissa * 10 powi (- int (length fp)))
               | c # t \<Rightarrow>
                   if c = CHR ''e'' \<or> c = CHR ''E'' then
                     (let (neg, ds) = split_sign t
                      in if ds \<noteq> [] \<and> list_all is_digit ds
                         then Some (mantissa * 10 powi ((if neg then - int (digits_value ds)
                                                        else int (digits_value ds)) - int (length fp)))
                         else None)
                   else None))"

definition py_float :: "string \<Rightarrow> py_exception + pyfloat" where
  "py_float s =
     (case remove_underscores None (strip s) of
        None \<Rightarrow> Inl ValueError
      | Some u \<Rightarrow>
          (let (neg, body) = split_sign u
           in if map lower body = ''inf'' \<or> map lower body = ''infinity''
              then Inr (if neg then NegInf else PosInf)
              else if map lower body = ''nan'' then Inr NaN
              else (case parse_decimal body of
                      None \<Rightarrow> Inl ValueError
                    | Some q \<Rightarrow> Inr (round_double (if neg then - q else q)))))"

text \<open>
  \<^verbatim>\<open>int(str)\<close>; interpreters since Python 3.11 raise \<^verbatim>\<open>ValueError\<close> for more than
  4300 digits.
\<close>

definition int_max_str_digits :: nat where
  "int_max_str_digits = 4300"

definition py_int :: "string \<Rightarrow> py_exception + int" where
  "py_int s =
     (let (neg, body) = split_sign (strip s)
      in case remove_underscores None body of
           None \<Rightarrow> Inl ValueError
         | Some ds \<Rightarrow>
             if ds = [] \<or> \<not> list_all is_digit ds then Inl ValueError
             else if length ds > int_max_str_digits then Inl ValueError
             else Inr (if neg then - int (digits_value ds) else int (digits_value ds)))"

text \<open>\<^verbatim>\<open>num *= k\<close> for a float \<open>num\<close> and a positive integer constant \<open>k\<close>.\<close>

definition float_mul :: "pyfloat \<Rightarrow> int \<Rightarrow> pyfloat" where
  "float_mul x k = (case x of Finite a \<Rightarrow> round_double (a * of_int k) | _ \<Rightarrow> x)"

text \<open>\<^verbatim>\<open>int(num)\<close> truncates towards zero and raises for an infinity or a NaN.\<close>

definition int_of_float :: "pyfloat \<Rightarrow> py_exception + int" where
  "int_of_float x =
     (case x of
        Finite a \<Rightarrow> Inr (if a \<ge> 0 then \<lfloor>a\<rfloor> else \<lceil>a\<rceil>)
      | NaN \<Rightarrow> Inl ValueError
      | _ \<Rightarrow> Inl OverflowError)"

section \<open>Local index sizes (get_local_indices)\<close>

text \<open>
  The body of the \<^verbatim>\<open>try\<close> block of lines 116-124 for a non-empty string;
  \<^verbatim>\<open>size[:-2]\<close> drops the last two characters.
\<close>

definition size_to_bytes :: "string \<Rightarrow> py_exception + int" where
  "size_to_bytes size_str =
     (if endswith size_str ''b'' then
        (case py_float (take (length size_str - 2) size_str) of
           Inl e \<Rightarrow> Inl e
         | Inr num \<Rightarrow>
             int_of_float
               (if endswith size_str ''kb'' then float_mul num 1024
                else if endswith size_str ''mb'' then float_mul num (1024 ^ 2)
                else if endswith size_str ''gb'' then float_mul num (1024 ^ 3)
                else if endswith size_str ''tb'' then float_mul num (1024 ^ 4)
                else num))
      else py_int size_str)"

text \<open>A JSON value of a row of \<^verbatim>\<open>_cat/indices\<close>.\<close>

datatype json = JNull | JString string | JNumber int

text \<open>
  Lines 109 and 113-127: \<open>field\<close> is the value under \<^verbatim>\<open>'store.size'\<close>, or \<open>None\<close>
  when the row has no such key (then \<^verbatim>\<open>idx.get\<close> gives \<^verbatim>\<open>'0b'\<close>). Only a non-empty
  string is parsed; \<^verbatim>\<open>except (ValueError, TypeError)\<close> turns a \<^verbatim>\<open>ValueError\<close> into 0
  and lets an \<^verbatim>\<open>OverflowError\<close> through.
\<close>

definition store_size_bytes :: "json option \<Rightarrow> py_exception + int" where
  "store_size_bytes field =
     (case (case field of None \<Rightarrow> JString ''0b'' | Some v \<Rightarrow> v) of
        JString size_str \<Rightarrow>
          if size_str \<noteq> [] then
            (case size_to_bytes size_str of
               Inl ValueError \<Rightarrow> Inr 0
             | Inl OverflowError \<Rightarrow> Inl OverflowError
             | Inr size_bytes \<Rightarrow> Inr size_bytes)
          else Inr 0
      | _ \<Rightarrow> Inr 0)"

text \<open>Lines 110 and 130-134, the value under \<^verbatim>\<open>'docs.count'\<close>.\<close>

definition docs_count_int :: "json option \<Rightarrow> int" where
  "docs_count_int field =
     (case (case field of None \<Rightarrow> JString ''0'' | Some v \<Rightarrow> v) of
        JNull \<Rightarrow> 0
      | JNumber n \<Rightarrow> n
      | JString s \<Rightarrow> (case py_int s of Inl _ \<Rightarrow> 0 | Inr n \<Rightarrow> n))"

record cat_row =
  row_index :: string
  row_docs_count :: "json option"
  row_store_size :: "json option"

text \<open>The loop over the rows (lines 108-140), building the dictionary \<^verbatim>\<open>indices\<close>.\<close>

fun local_rows :: "cat_row list \<Rightarrow> local_indices \<Rightarrow> py_exception + local_indices" where
  "local_rows [] indices = Inr indices"
| "local_rows (idx # rest) indices =
     (case store_size_bytes (row_store_size idx) of
        Inl e \<Rightarrow> Inl e
      | Inr size_bytes \<Rightarrow>
          local_rows rest
            (indices(row_index idx \<mapsto>
               \<lparr>li_docs = docs_count_int (row_docs_count idx), li_size = size_bytes\<rparr>)))"

text \<open>
  \<^verbatim>\<open>get_local_indices()\<close> returns a dictionary on both of its paths (lines 142 and 145),
  the empty one when the request fails; it never returns \<^verbatim>\<open>None\<close>. The result is an
  option so that the caller's test \<^verbatim>\<open>local_indices is None\<close> can be written down;
  \<open>Inl\<close> is an exception that leaves the function.
\<close>

definition get_local_indices :: "cat_row list response \<Rightarrow> py_exception + local_indices option" where
  "get_local_indices r =
     (case r of
        RequestException \<Rightarrow> Inr (Some Map.empty)
      | Response ok rows \<Rightarrow>
          if \<not> ok then Inr (Some Map.empty)
          else (case local_rows rows Map.empty of
                  Inl e \<Rightarrow> Inl e
                | Inr indices \<Rightarrow> Inr (Some indices)))"

section \<open>The run (main) and the calls before the selection\<close>

definition verify_repository :: "cluster \<Rightarrow> unit response \<Rightarrow> unit response \<Rightarrow> bool \<times> request list" where
  "verify_repository cluster_config r status_r =
     (case r of
        RequestException \<Rightarrow> (False, [Get_repository cluster_config])
      | Response ok _ \<Rightarrow>
          if \<not> ok then (False, [Get_repository cluster_config])
          else (case status_r of
                  RequestException \<Rightarrow>
                    (False, [Get_repository cluster_config, Get_repository_status cluster_config])
                | Response status_ok _ \<Rightarrow>
                    (status_ok, [Get_repository cluster_config, Get_repository_status cluster_config])))"

text \<open>
  \<^verbatim>\<open>max(snapshots, key=lambda s: s['end_epoch'])\<close> returns the first of the greatest
  elements. A snapshot is its \<^verbatim>\<open>id\<close> and its \<^verbatim>\<open>end_epoch\<close>, taken to be a time stamp
  that the log line of line 74 can print.
\<close>

fun py_max_key :: "('a \<Rightarrow> int) \<Rightarrow> 'a \<Rightarrow> 'a list \<Rightarrow> 'a" where
  "py_max_key f best [] = best"
| "py_max_key f best (x # xs) = py_max_key f (if f x > f best then x else best) xs"

definition get_latest_snapshot :: "(string \<times> int) list response \<Rightarrow> string option" where
  "get_latest_snapshot r =
     (case r of
        RequestException \<Rightarrow> None
      | Response ok snapshots \<Rightarrow>
          if \<not> ok then None
          else (case snapshots of
                  [] \<Rightarrow> None
                | s # rest \<Rightarrow> Some (fst (py_max_key snd s rest))))"

definition get_snapshot_indices :: "snapshot_indices response \<Rightarrow> snapshot_indices" where
  "get_snapshot_indices r =
     (case r of
        RequestException \<Rightarrow> []
      | Response ok indices \<Rightarrow> if ok then indices else [])"

text \<open>
  \<^verbatim>\<open>wait_for_green(index)\<close> with the default \<^verbatim>\<open>max_attempts=30\<close>; the body of a
  response is \<^verbatim>\<open>r.json()['status']\<close>. The result is the returned value and the
  requests sent.
\<close>

function wait_for_green ::
  "string \<Rightarrow> (nat \<Rightarrow> string response) \<Rightarrow> nat \<Rightarrow> nat \<Rightarrow> request list \<Rightarrow> bool \<times> request list"
where
  "wait_for_green index env attempt polled reqs =
     (if attempt < max_attempts then
        (case env polled of
           RequestException \<Rightarrow>
             wait_for_green index env (attempt + 1) (polled + 1) (reqs @ [Get_health_wait_green index])
         | Response ok status \<Rightarrow>
             if \<not> ok
             then wait_for_green index env (attempt + 1) (polled + 1)
                    (reqs @ [Get_health_wait_green index])
             else if status = ''green'' then (True, reqs @ [Get_health_wait_green index])
             else wait_for_green index env (attempt + 1) (polled + 1)
                    (reqs @ [Get_health_wait_green index]))
      else (False, reqs))"
  by pat_completeness auto
termination
  by (relation "measure (\<lambda>(index, env, attempt, polled, reqs). max_attempts - attempt)") auto

text \<open>
  The loop over the batch (lines 349-367); \<open>reqs\<close> are the requests sent so far, each
  \<^verbatim>\<open>continue\<close> goes on with the rest of the batch. \<open>ws idx\<close> is what the clusters
  answer about index \<open>idx\<close>.
\<close>

fun restore_batch ::
  "string \<Rightarrow> local_indices \<Rightarrow> (string \<Rightarrow> index_world) \<Rightarrow> string list \<Rightarrow> request list \<Rightarrow> request list"
where
  "restore_batch snapshot local_idx ws [] reqs = reqs"
| "restore_batch snapshot local_idx ws (idx # rest) reqs =
     (case get_index_doc_count (active_count (ws idx)) of
        None \<Rightarrow> restore_batch snapshot local_idx ws rest (reqs @ [Get_count ACTIVE_CLUSTER idx])
      | Some expected_docs \<Rightarrow>
          if local_idx idx \<noteq> None \<and> \<not> close_index (close_response (ws idx))
          then restore_batch snapshot local_idx ws rest
                 (reqs @ [Get_count ACTIVE_CLUSTER idx, Post_close idx])
          else
            (let reqs1 = reqs @ [Get_count ACTIVE_CLUSTER idx]
                           @ (if local_idx idx \<noteq> None then [Post_close idx] else []);
                 (restored, polls, restore_reqs) = restore_index snapshot idx expected_docs (ws idx)
             in if restored then
                  (if open_index (open_response (ws idx))
                   then restore_batch snapshot local_idx ws rest
                          (snd (wait_for_green idx (green_polls (ws idx)) 0 0
                                  (reqs1 @ restore_reqs @ [Post_open idx])))
                   else restore_batch snapshot local_idx ws rest
                          (reqs1 @ restore_reqs @ [Post_open idx]))
                else restore_batch snapshot local_idx ws rest (reqs1 @ restore_reqs)))"

text \<open>What the two clusters answer during one run.\<close>

record world =
  repository_response :: "unit response"
  repository_status_response :: "unit response"
  cat_snapshots_response :: "(string \<times> int) list response"
  snapshot_status_response :: "string \<Rightarrow> snapshot_indices response"
  cat_indices_response :: "cat_row list response"
  index_worlds :: "string \<Rightarrow> index_world"

text \<open>
  How a run ends: one constructor for each \<^verbatim>\<open>return\<close> of \<^verbatim>\<open>main\<close>, named after its
  log line, and \<open>Completed batch\<close> when the loop over the batch has run.
\<close>

datatype outcome =
    Repository_not_found
  | No_latest_snapshot
  | No_snapshot_indices
  | No_local_indices
  | No_indices_to_restore
  | Completed "string list"

definition main :: "world \<Rightarrow> py_exception + outcome \<times> request list" where
  "main w =
     (case verify_repository PASSIVE_CLUSTER (repository_response w) (repository_status_response w) of
        (repo_ok, reqs1) \<Rightarrow>
          if \<not> repo_ok then Inr (Repository_not_found, reqs1)
          else
            (case get_latest_snapshot (cat_snapshots_response w) of
               None \<Rightarrow> Inr (No_latest_snapshot, reqs1 @ [Get_cat_snapshots])
             | Some snapshot \<Rightarrow>
                 if snapshot = [] then Inr (No_latest_snapshot, reqs1 @ [Get_cat_snapshots])
                 else
                   (let snap_indices = get_snapshot_indices (snapshot_status_response w snapshot);
                        reqs3 = reqs1 @ [Get_cat_snapshots, Get_snapshot_status snapshot]
                    in if snap_indices = [] then Inr (No_snapshot_indices, reqs3)
                       else
                         (case get_local_indices (cat_indices_response w) of
                            Inl e \<Rightarrow> Inl e
                          | Inr None \<Rightarrow> Inr (No_local_indices, reqs3 @ [Get_cat_indices])
                          | Inr (Some local_idx) \<Rightarrow>
                              (let batch = pick_indices_to_restore snap_indices local_idx
                               in if batch = []
                                  then Inr (No_indices_to_restore, reqs3 @ [Get_cat_indices])
                                  else Inr (Completed batch,
                                            restore_batch snapshot local_idx (index_worlds w) batch
                                              (reqs3 @ [Get_cat_indices])))))))"

text \<open>The number of health requests among the requests sent.\<close>

definition health_requests :: "request list \<Rightarrow> nat" where
  "health_requests reqs = length (filter (\<lambda>r. case r of Get_health _ \<Rightarrow> True | _ \<Rightarrow> False) reqs)"

section \<open>Notions for stating the properties of the size parsing\<close>

text \<open>
  The value of the decimal numeral with the integer digits \<open>ip\<close> and the fraction
  digits \<open>fp\<close>; the characters of such a numeral; and the rationals that a binary64
  number can hold.
\<close>

definition decimal_value :: "string \<Rightarrow> string \<Rightarrow> rat" where
  "decimal_value ip fp = of_nat (digits_value (ip @ fp)) / 10 ^ length fp"

definition number_char :: "char \<Rightarrow> bool" where
  "number_char c = (is_digit c \<or> c = CHR ''.'')"

definition is_double :: "rat \<Rightarrow> bool" where
  "is_double v = (\<exists>m e. v = of_int m * 2 powi e \<and> \<bar>m\<bar> < 2 ^ 53 \<and> - 1074 \<le> e \<and> \<bar>v\<bar> < 2 powi 1024)"

section \<open>Simulated clusters used as concrete inputs\<close>

text \<open>A cluster that accepts the restore request and answers the polls as \<open>env\<close> says.\<close>

definition accepted_world :: "(nat \<Rightarrow> poll) \<Rightarrow> index_world" where
  "accepted_world env =
     \<lparr>active_count = Response True 7, close_response = Response True (),
      snapshot_response = Response True (), restore_response = Response True (),
      health_polls = env, open_response = Response True (),
      green_polls = (\<lambda>n. Response True ''green'')\<rparr>"

text \<open>Yellow, yellow, green with 5 documents, then green with 7 documents.\<close>

definition four_polls :: "nat \<Rightarrow> poll" where
  "four_polls n =
     (if n < 2 then \<lparr>health = Response True (Some ''yellow''), doc_count = Response True 0\<rparr>
      else if n = 2 then \<lparr>health = Response True (Some ''green''), doc_count = Response True 5\<rparr>
      else \<lparr>health = Response True (Some ''green''), doc_count = Response True 7\<rparr>)"

text \<open>
  A sequence that never succeeds, cycling through the four outcomes: a request exception,
  a response that is not OK, a yellow status, a green status with 5 documents.
\<close>

definition never_matching :: "nat \<Rightarrow> poll" where
  "never_matching n =
     (if n mod 4 = 0 then \<lparr>health = RequestException, doc_count = RequestException\<rparr>
      else if n mod 4 = 1 then \<lparr>health = Response False None, doc_count = RequestException\<rparr>
      else if n mod 4 = 2 then \<lparr>health = Response True (Some ''yellow''), doc_count = Response True 7\<rparr>
      else \<lparr>health = Response True (Some ''green''), doc_count = Response True 5\<rparr>)"

text \<open>Green at every poll, while the count request on the passive cluster always fails.\<close>

definition count_unavailable :: "nat \<Rightarrow> poll" where
  "count_unavailable n = \<lparr>health = Response True (Some ''green''), doc_count = RequestException\<rparr>"

text \<open>
  A run in which everything succeeds except the request for the local indices: the
  snapshot \<^verbatim>\<open>snap-1\<close> holds one index \<^verbatim>\<open>logs\<close> of 100 bytes with 7 documents.
\<close>

definition local_fetch_fails :: world where
  "local_fetch_fails =
     \<lparr>repository_response = Response True (),
      repository_status_response = Response True (),
      cat_snapshots_response = Response True [(''snap-1'', 1700000000000)],
      snapshot_status_response = (\<lambda>snapshot. Response True [(''logs'', 100)]),
      cat_indices_response = RequestException,
      index_worlds = (\<lambda>idx. accepted_world (\<lambda>n. \<lparr>health = Response True (Some ''green''),
                                                   doc_count = Response True 7\<rparr>))\<rparr>"

text \<open>
  Two indices: \<^verbatim>\<open>logs-a\<close> exists locally and its close request is refused, every
  request about any other index succeeds.
\<close>

definition close_fails_worlds :: "string \<Rightarrow> index_world" where
  "close_fails_worlds idx =
     (if idx = ''logs-a''
      then (accepted_world (\<lambda>n. \<lparr>health = Response True (Some ''green''), doc_count = Response True 7\<rparr>))
             \<lparr>close_response := Response False ()\<rparr>
      else accepted_world (\<lambda>n. \<lparr>health = Response True (Some ''green''), doc_count = Response True 7\<rparr>))"

definition close_fails_local :: local_indices where
  "close_fails_local = [''logs-a'' \<mapsto> \<lparr>li_docs = 3, li_size = 10\<rparr>]"

section \<open>Properties of the selection\<close>

lemma accumulate_prefix:
  "\<exists>k \<le> length cs. accumulate cs b t = b @ map fst (take k cs) \<and>
     (\<forall>j < k. t + sum_list (map snd (take j cs)) + snd (cs ! j) \<le> MAX_RESTORE_BYTES) \<and>
     (k < length cs \<longrightarrow> t + sum_list (map snd (take k cs)) + snd (cs ! k) > MAX_RESTORE_BYTES)"
proof (induction cs b t rule: accumulate.induct)
  case (1 batch tot)
  then show ?case by simp
next
  case (2 idx sz rest batch tot)
  show ?case
  proof (cases "tot + sz > MAX_RESTORE_BYTES")
    case True
    then show ?thesis by (intro exI[of _ 0]) simp
  next
    case False
    from 2[OF False] obtain k where k: "k \<le> length rest"
      "accumulate rest (batch @ [idx]) (tot + sz) = (batch @ [idx]) @ map fst (take k rest)"
      "\<forall>j < k. tot + sz + sum_list (map snd (take j rest)) + snd (rest ! j) \<le> MAX_RESTORE_BYTES"
      "k < length rest \<longrightarrow> tot + sz + sum_list (map snd (take k rest)) + snd (rest ! k) > MAX_RESTORE_BYTES"
      by blast
    have a: "accumulate ((idx, sz) # rest) batch tot = batch @ map fst (take (Suc k) ((idx, sz) # rest))"
      using False k(2) by simp
    have b: "\<forall>j < Suc k. tot + sum_list (map snd (take j ((idx, sz) # rest))) + snd (((idx, sz) # rest) ! j) \<le> MAX_RESTORE_BYTES"
    proof (intro allI impI)
      fix j assume "j < Suc k"
      show "tot + sum_list (map snd (take j ((idx, sz) # rest))) + snd (((idx, sz) # rest) ! j) \<le> MAX_RESTORE_BYTES"
      proof (cases j)
        case 0
        then show ?thesis using False by simp
      next
        case (Suc j')
        with \<open>j < Suc k\<close> have "j' < k" by simp
        with k(3) Suc show ?thesis by (simp add: add.assoc)
      qed
    qed
    have c: "Suc k < length ((idx, sz) # rest) \<longrightarrow>
        tot + sum_list (map snd (take (Suc k) ((idx, sz) # rest))) + snd (((idx, sz) # rest) ! Suc k) > MAX_RESTORE_BYTES"
      using k(4) by (simp add: add.assoc)
    from a b c k(1) show ?thesis by (intro exI[of _ "Suc k"]) simp
  qed
qed

lemma to_restore_filter:
  "to_restore snap l = filter (\<lambda>(idx, s). \<not> is_system_index idx \<and> needs_restore l idx s) snap"
  by (induction snap l rule: to_restore.induct) auto

lemma sorted_to_restore_mset:
  "mset (sorted_to_restore snap l) = mset (filter (\<lambda>(idx, s). \<not> is_system_index idx \<and> needs_restore l idx s) snap)"
  by (simp add: sorted_to_restore_def to_restore_filter)

lemma sorted_to_restore_set:
  "set (sorted_to_restore snap l) = {(idx, s) \<in> set snap. \<not> is_system_index idx \<and> needs_restore l idx s}"
  by (auto simp: sorted_to_restore_def to_restore_filter)

lemma sorted_to_restore_desc: "sorted_wrt (\<lambda>a b. a \<ge> b) (map snd (sorted_to_restore snap l))"
proof -
  have "sorted (map (\<lambda>x. - snd x) (sorted_to_restore snap l))"
    unfolding sorted_to_restore_def by (rule sorted_sort_key)
  then show ?thesis by (simp add: sorted_map sorted_wrt_map)
qed

lemma snapshot_size_eq:
  "distinct (map fst snap) \<Longrightarrow> (idx, s) \<in> set snap \<Longrightarrow> snapshot_size snap idx = s"
  by (simp add: snapshot_size_def)

lemma snapshot_size_map:
  assumes "distinct (map fst snap)" and "set cs \<subseteq> set snap"
  shows "map (snapshot_size snap) (map fst cs) = map snd cs"
  using assms(2) by (induction cs) (auto simp: snapshot_size_eq[OF assms(1)])


lemma MAX_RESTORE_BYTES_nonneg: "0 \<le> MAX_RESTORE_BYTES"
  by (simp add: MAX_RESTORE_BYTES_def)

lemma pick_prefix:
  "\<exists>k \<le> length (sorted_to_restore snap l).
     pick_indices_to_restore snap l = map fst (take k (sorted_to_restore snap l)) \<and>
     (\<forall>j < k. sum_list (map snd (take j (sorted_to_restore snap l))) + snd (sorted_to_restore snap l ! j)
                 \<le> MAX_RESTORE_BYTES) \<and>
     (k < length (sorted_to_restore snap l) \<longrightarrow>
        sum_list (map snd (take k (sorted_to_restore snap l))) + snd (sorted_to_restore snap l ! k)
          > MAX_RESTORE_BYTES)"
  using accumulate_prefix[of "sorted_to_restore snap l" "[]" 0]
  by (simp add: pick_indices_to_restore_def)

lemma prefix_total_le:
  assumes "\<forall>j < k. sum_list (map snd (take j cs)) + snd (cs ! j) \<le> MAX_RESTORE_BYTES"
    and "k \<le> length cs"
  shows "sum_list (map snd (take k cs)) \<le> MAX_RESTORE_BYTES"
proof (cases k)
  case 0
  then show ?thesis by (simp add: MAX_RESTORE_BYTES_nonneg)
next
  case (Suc j)
  with assms(2) have "j < length cs" by simp
  then have "take (Suc j) cs = take j cs @ [cs ! j]" by (rule take_Suc_conv_app_nth)
  moreover from assms(1) Suc
  have "sum_list (map snd (take j cs)) + snd (cs ! j) \<le> MAX_RESTORE_BYTES" by simp
  ultimately show ?thesis using Suc by simp
qed

text \<open>
  Claim C1. Whenever the snapshot dictionary has each name once (as a dictionary does), the
  batch returned by \<open>pick_indices_to_restore\<close> has a summed snapshot size of at most
  \<open>MAX_RESTORE_BYTES\<close>, contains no name that starts with a prefix of
  \<open>SYSTEM_INDICES\<close>, and every name in it is a candidate: it is an index of the snapshot
  that is absent from the local map or whose snapshot size is strictly greater than its
  local size.
\<close>

theorem selection_invariants:
  assumes "distinct (map fst snap)"
  shows "sum_list (map (snapshot_size snap) (pick_indices_to_restore snap l)) \<le> MAX_RESTORE_BYTES
       \<and> (\<forall>idx \<in> set (pick_indices_to_restore snap l).
             (\<forall>p \<in> set SYSTEM_INDICES. \<not> startswith idx p)
           \<and> idx \<in> fst ` set snap
           \<and> (l idx = None \<or> (\<exists>loc. l idx = Some loc \<and> snapshot_size snap idx > li_size loc)))"
proof -
  let ?cs = "sorted_to_restore snap l"
  obtain k where k: "k \<le> length ?cs"
    "pick_indices_to_restore snap l = map fst (take k ?cs)"
    "\<forall>j < k. sum_list (map snd (take j ?cs)) + snd (?cs ! j) \<le> MAX_RESTORE_BYTES"
    using pick_prefix[of snap l] by blast
  have sub: "set (take k ?cs) \<subseteq> set snap"
    using set_take_subset[of k ?cs] by (auto simp: sorted_to_restore_set)
  have "map (snapshot_size snap) (pick_indices_to_restore snap l) = map snd (take k ?cs)"
    unfolding k(2) by (rule snapshot_size_map[OF assms sub])
  then have total: "sum_list (map (snapshot_size snap) (pick_indices_to_restore snap l)) \<le> MAX_RESTORE_BYTES"
    using prefix_total_le[OF k(3) k(1)] by simp
  have each: "(\<forall>p \<in> set SYSTEM_INDICES. \<not> startswith idx p) \<and> idx \<in> fst ` set snap
           \<and> (l idx = None \<or> (\<exists>loc. l idx = Some loc \<and> snapshot_size snap idx > li_size loc))"
    if "idx \<in> set (pick_indices_to_restore snap l)" for idx
  proof -
    from that k(2) obtain s where "(idx, s) \<in> set (take k ?cs)" by auto
    then have mem: "(idx, s) \<in> set ?cs" by (rule in_set_takeD)
    then have in_snap: "(idx, s) \<in> set snap" and nsys: "\<not> is_system_index idx"
      and need: "needs_restore l idx s"
      by (simp_all add: sorted_to_restore_set)
    from in_snap have sz: "snapshot_size snap idx = s" by (rule snapshot_size_eq[OF assms])
    from nsys have "\<forall>p \<in> set SYSTEM_INDICES. \<not> startswith idx p"
      by (simp add: is_system_index_def list_ex_iff)
    moreover from in_snap have "idx \<in> fst ` set snap" by force
    moreover from need sz have "l idx = None \<or> (\<exists>loc. l idx = Some loc \<and> snapshot_size snap idx > li_size loc)"
      by (auto simp: needs_restore_def split: option.splits)
    ultimately show ?thesis by blast
  qed
  from total each show ?thesis by blast
qed


theorem selection_invariants_witness:
  "distinct (map fst [(''logs-a'', 300 * 10 ^ 9), (''.kibana_1'', 5), (''logs-b'', 200 * 10 ^ 9), (''logs-c'', 100 :: int)])
   \<and> pick_indices_to_restore
        [(''logs-a'', 300 * 10 ^ 9), (''.kibana_1'', 5), (''logs-b'', 200 * 10 ^ 9), (''logs-c'', 100)]
        [''logs-c'' \<mapsto> \<lparr>li_docs = 1, li_size = 100\<rparr>] = [''logs-a'', ''logs-b'']
   \<and> sum_list (map (snapshot_size
          [(''logs-a'', 300 * 10 ^ 9), (''.kibana_1'', 5), (''logs-b'', 200 * 10 ^ 9), (''logs-c'', 100)])
        (pick_indices_to_restore
          [(''logs-a'', 300 * 10 ^ 9), (''.kibana_1'', 5), (''logs-b'', 200 * 10 ^ 9), (''logs-c'', 100)]
          [''logs-c'' \<mapsto> \<lparr>li_docs = 1, li_size = 100\<rparr>])) \<le> MAX_RESTORE_BYTES"
proof -
  let ?S = "[(''logs-a'', 300 * 10 ^ 9), (''.kibana_1'', 5), (''logs-b'', 200 * 10 ^ 9), (''logs-c'', 100 :: int)]"
  let ?L = "[''logs-c'' \<mapsto> \<lparr>li_docs = 1, li_size = 100\<rparr>]"
  have h: "distinct (map fst ?S)" by simp
  have p: "pick_indices_to_restore ?S ?L = [''logs-a'', ''logs-b'']"
    by (simp add: pick_indices_to_restore_def sorted_to_restore_def is_system_index_def
        SYSTEM_INDICES_def startswith_def needs_restore_def MAX_RESTORE_BYTES_def)
  from h p selection_invariants[OF h, of ?L] show ?thesis by blast
qed

text \<open>
  Claim C2, as stated, fails: for the sizes 300, 200 and 250 (times \<open>10 ^ 9\<close>, the unit of
  the ceiling \<open>500 * 10 ^ 9\<close>) the batch is not the size-300 and size-200 indices.
\<close>

theorem greedy_example_counterexample:
  "set (pick_indices_to_restore
          [(''idx-300'', 300 * 10 ^ 9), (''idx-200'', 200 * 10 ^ 9), (''idx-250'', 250 * 10 ^ 9)]
          Map.empty) \<noteq> {''idx-300'', ''idx-200''}"
  by (simp add: pick_indices_to_restore_def sorted_to_restore_def is_system_index_def
      SYSTEM_INDICES_def startswith_def needs_restore_def MAX_RESTORE_BYTES_def)

text \<open>
  Claim C2, amended. For three indices of sizes 300, 200 and 250 (times \<open>10 ^ 9\<close>), none
  a system index and none present locally, the batch is exactly the size-300 index: the
  size-250 index comes next in descending order, would bring the total to 550, and the
  accumulation stops there, so that the size-200 index is left out as well.
\<close>

theorem greedy_example_amended:
  assumes "\<not> is_system_index a" and "\<not> is_system_index b" and "\<not> is_system_index c"
  shows "pick_indices_to_restore [(a, 300 * 10 ^ 9), (b, 200 * 10 ^ 9), (c, 250 * 10 ^ 9)] Map.empty = [a]"
  using assms
  by (simp add: pick_indices_to_restore_def sorted_to_restore_def needs_restore_def
      MAX_RESTORE_BYTES_def)

theorem greedy_example_amended_witness:
  "\<not> is_system_index ''idx-300'' \<and> \<not> is_system_index ''idx-200'' \<and> \<not> is_system_index ''idx-250''
   \<and> pick_indices_to_restore
        [(''idx-300'', 300 * 10 ^ 9), (''idx-200'', 200 * 10 ^ 9), (''idx-250'', 250 * 10 ^ 9)]
        Map.empty = [''idx-300'']"
proof -
  have h: "\<not> is_system_index ''idx-300''" "\<not> is_system_index ''idx-200''"
    "\<not> is_system_index ''idx-250''"
    by (simp_all add: is_system_index_def SYSTEM_INDICES_def startswith_def)
  from h greedy_example_amended[OF h] show ?thesis by blast
qed

text \<open>
  Claim C3. Whenever the snapshot dictionary has each name once, the batch lists its
  indices in descending order of snapshot size; the candidates are tried in descending
  order of size (\<open>sorted_to_restore\<close>), and the batch is the names of the first \<open>k\<close>
  of them, where every one of these fitted under the ceiling when it was added and the
  candidate at position \<open>k\<close>, if there is one, is the first that would push the running
  total over \<open>MAX_RESTORE_BYTES\<close>: nothing from there onward is added, and a batch is
  returned all the same.
\<close>

theorem greedy_descending_cutoff:
  assumes "distinct (map fst snap)"
  shows "sorted_wrt (\<lambda>x y. x \<ge> y) (map (snapshot_size snap) (pick_indices_to_restore snap l))
       \<and> sorted_wrt (\<lambda>x y. x \<ge> y) (map snd (sorted_to_restore snap l))
       \<and> (\<exists>k \<le> length (sorted_to_restore snap l).
             pick_indices_to_restore snap l = map fst (take k (sorted_to_restore snap l))
           \<and> (\<forall>j < k. sum_list (map snd (take j (sorted_to_restore snap l)))
                          + snd (sorted_to_restore snap l ! j) \<le> MAX_RESTORE_BYTES)
           \<and> (k < length (sorted_to_restore snap l) \<longrightarrow>
                sum_list (map snd (take k (sorted_to_restore snap l)))
                  + snd (sorted_to_restore snap l ! k) > MAX_RESTORE_BYTES))"
proof -
  let ?cs = "sorted_to_restore snap l"
  obtain k where k: "k \<le> length ?cs"
    "pick_indices_to_restore snap l = map fst (take k ?cs)"
    "\<forall>j < k. sum_list (map snd (take j ?cs)) + snd (?cs ! j) \<le> MAX_RESTORE_BYTES"
    "k < length ?cs \<longrightarrow> sum_list (map snd (take k ?cs)) + snd (?cs ! k) > MAX_RESTORE_BYTES"
    using pick_prefix[of snap l] by blast
  have desc: "sorted_wrt (\<lambda>x y. x \<ge> y) (map snd ?cs)" by (rule sorted_to_restore_desc)
  have sub: "set (take k ?cs) \<subseteq> set snap"
    using set_take_subset[of k ?cs] by (auto simp: sorted_to_restore_set)
  have "map (snapshot_size snap) (pick_indices_to_restore snap l) = map snd (take k ?cs)"
    unfolding k(2) by (rule snapshot_size_map[OF assms sub])
  also have "\<dots> = take k (map snd ?cs)" by (simp add: take_map)
  finally have "sorted_wrt (\<lambda>x y. x \<ge> y) (map (snapshot_size snap) (pick_indices_to_restore snap l))"
    using desc by (simp add: sorted_wrt_take)
  with desc k show ?thesis by blast
qed

theorem greedy_descending_cutoff_witness:
  "distinct (map fst [(''idx-300'', 300 * 10 ^ 9), (''idx-200'', 200 * 10 ^ 9), (''idx-250'', 250 * 10 ^ 9 :: int)])
   \<and> sorted_to_restore
        [(''idx-300'', 300 * 10 ^ 9), (''idx-200'', 200 * 10 ^ 9), (''idx-250'', 250 * 10 ^ 9)] Map.empty
       = [(''idx-300'', 300 * 10 ^ 9), (''idx-250'', 250 * 10 ^ 9), (''idx-200'', 200 * 10 ^ 9)]
   \<and> sorted_wrt (\<lambda>x y. x \<ge> y)
        (map (snapshot_size [(''idx-300'', 300 * 10 ^ 9), (''idx-200'', 200 * 10 ^ 9), (''idx-250'', 250 * 10 ^ 9)])
          (pick_indices_to_restore
            [(''idx-300'', 300 * 10 ^ 9), (''idx-200'', 200 * 10 ^ 9), (''idx-250'', 250 * 10 ^ 9)] Map.empty))
   \<and> (\<exists>k \<le> length (sorted_to_restore
                [(''idx-300'', 300 * 10 ^ 9), (''idx-200'', 200 * 10 ^ 9), (''idx-250'', 250 * 10 ^ 9)] Map.empty).
        pick_indices_to_restore
          [(''idx-300'', 300 * 10 ^ 9), (''idx-200'', 200 * 10 ^ 9), (''idx-250'', 250 * 10 ^ 9)] Map.empty
        = map fst (take k (sorted_to_restore
            [(''idx-300'', 300 * 10 ^ 9), (''idx-200'', 200 * 10 ^ 9), (''idx-250'', 250 * 10 ^ 9)] Map.empty)))"
proof -
  let ?S = "[(''idx-300'', 300 * 10 ^ 9), (''idx-200'', 200 * 10 ^ 9), (''idx-250'', 250 * 10 ^ 9 :: int)]"
  have h: "distinct (map fst ?S)" by simp
  have c: "sorted_to_restore ?S Map.empty
       = [(''idx-300'', 300 * 10 ^ 9), (''idx-250'', 250 * 10 ^ 9), (''idx-200'', 200 * 10 ^ 9)]"
    by (simp add: sorted_to_restore_def is_system_index_def SYSTEM_INDICES_def startswith_def
        needs_restore_def)
  from h c greedy_descending_cutoff[OF h, of Map.empty] show ?thesis by blast
qed

section \<open>Properties of the restore driver\<close>

declare poll_loop.simps [simp del]

lemma green_and_matching_verify:
  "green_and_matching e p \<longleftrightarrow>
     health p = Response True (Some ''green'') \<and> verify_restore_success (doc_count p) e"
  by (auto simp: green_and_matching_def verify_restore_success_def get_index_doc_count_def
      split: response.splits)

lemma poll_loop_success_step:
  assumes "attempt < max_attempts" and "green_and_matching e (env polled)"
  shows "poll_loop i e env attempt polled reqs =
           (True, polled + 1, reqs @ [Get_health i, Get_count PASSIVE_CLUSTER i])"
  using assms by (subst poll_loop.simps) (simp add: green_and_matching_verify)

lemma poll_loop_retry_step:
  assumes "attempt < max_attempts" and "\<not> green_and_matching e (env polled)"
  shows "poll_loop i e env attempt polled reqs =
           poll_loop i e env (attempt + 1) (polled + 1)
             (reqs @ Get_health i #
                (if health (env polled) = Response True (Some ''green'')
                 then [Get_count PASSIVE_CLUSTER i] else []))"
  using assms
  by (subst poll_loop.simps) (auto simp: green_and_matching_verify split: response.splits)

lemma poll_loop_exhausted:
  "\<not> attempt < max_attempts \<Longrightarrow> poll_loop i e env attempt polled reqs = (False, polled, reqs)"
  by (subst poll_loop.simps) simp

lemma poll_loop_timeout:
  assumes "attempt \<le> max_attempts"
    and "\<forall>j. polled \<le> j \<and> j < polled + (max_attempts - attempt) \<longrightarrow> \<not> green_and_matching e (env j)"
  shows "\<exists>reqs'. poll_loop i e env attempt polled reqs = (False, polled + (max_attempts - attempt), reqs')
           \<and> health_requests reqs' = health_requests reqs + (max_attempts - attempt)"
  using assms
proof (induction "max_attempts - attempt" arbitrary: attempt polled reqs)
  case 0
  then have "\<not> attempt < max_attempts" by simp
  with 0 show ?case by (simp add: poll_loop_exhausted)
next
  case (Suc d)
  then have lt: "attempt < max_attempts" by simp
  from Suc.prems(2) lt have "\<not> green_and_matching e (env polled)" by simp
  define rs where "rs = (if health (env polled) = Response True (Some ''green'')
                 then [Get_count PASSIVE_CLUSTER i] else [])"
  have rs: "rs = [] \<or> rs = [Get_count PASSIVE_CLUSTER i]" by (simp add: rs_def)
  have step: "poll_loop i e env attempt polled reqs =
      poll_loop i e env (attempt + 1) (polled + 1) (reqs @ Get_health i # rs)"
    unfolding rs_def by (rule poll_loop_retry_step[where env=env and polled=polled, OF lt \<open>\<not> green_and_matching e (env polled)\<close>])
  have d: "d = max_attempts - (attempt + 1)" using Suc.hyps(2) by simp
  have le: "attempt + 1 \<le> max_attempts" using lt by simp
  have nm: "\<forall>j. polled + 1 \<le> j \<and> j < polled + 1 + (max_attempts - (attempt + 1)) \<longrightarrow>
               \<not> green_and_matching e (env j)"
    using Suc.prems(2) lt by auto
  from Suc.hyps(1)[OF d le nm, of "reqs @ Get_health i # rs"] obtain reqs' where
    r: "poll_loop i e env (attempt + 1) (polled + 1) (reqs @ Get_health i # rs) =
          (False, polled + 1 + (max_attempts - (attempt + 1)), reqs')"
       "health_requests reqs' = health_requests (reqs @ Get_health i # rs) + (max_attempts - (attempt + 1))"
    by blast
  have hr: "health_requests (reqs @ Get_health i # rs) = health_requests reqs + 1"
    using rs by (auto simp: health_requests_def)
  have m: "max_attempts - attempt = (max_attempts - (attempt + 1)) + 1" using lt by simp
  have "poll_loop i e env attempt polled reqs = (False, polled + (max_attempts - attempt), reqs')"
    unfolding step r(1) m by simp
  moreover have "health_requests reqs' = health_requests reqs + (max_attempts - attempt)"
    unfolding r(2) hr m by simp
  ultimately show ?case by blast
qed

lemma poll_loop_success:
  assumes "attempt + k < max_attempts"
    and "\<forall>j < k. \<not> green_and_matching e (env (polled + j))"
    and "green_and_matching e (env (polled + k))"
  shows "\<exists>reqs'. poll_loop i e env attempt polled reqs = (True, polled + k + 1, reqs')
           \<and> health_requests reqs' = health_requests reqs + k + 1"
  using assms
proof (induction k arbitrary: attempt polled reqs)
  case 0
  then show ?case by (simp add: poll_loop_success_step health_requests_def)
next
  case (Suc k)
  then have lt: "attempt < max_attempts" by simp
  from Suc.prems(2) have "\<not> green_and_matching e (env polled)" by force
  define rs where "rs = (if health (env polled) = Response True (Some ''green'')
                 then [Get_count PASSIVE_CLUSTER i] else [])"
  have rs: "rs = [] \<or> rs = [Get_count PASSIVE_CLUSTER i]" by (simp add: rs_def)
  have step: "poll_loop i e env attempt polled reqs =
      poll_loop i e env (attempt + 1) (polled + 1) (reqs @ Get_health i # rs)"
    unfolding rs_def by (rule poll_loop_retry_step[where env=env and polled=polled, OF lt \<open>\<not> green_and_matching e (env polled)\<close>])
  have a: "attempt + 1 + k < max_attempts" using Suc.prems(1) by simp
  have b: "\<forall>j < k. \<not> green_and_matching e (env (polled + 1 + j))"
  proof (intro allI impI)
    fix j assume "j < k"
    then have "Suc j < Suc k" by simp
    with Suc.prems(2) have "\<not> green_and_matching e (env (polled + Suc j))" by blast
    then show "\<not> green_and_matching e (env (polled + 1 + j))" by simp
  qed
  have c: "green_and_matching e (env (polled + 1 + k))" using Suc.prems(3) by simp
  from Suc.IH[OF a b c, of "reqs @ Get_health i # rs"] obtain reqs' where
    r: "poll_loop i e env (attempt + 1) (polled + 1) (reqs @ Get_health i # rs) =
          (True, polled + 1 + k + 1, reqs')"
       "health_requests reqs' = health_requests (reqs @ Get_health i # rs) + k + 1"
    by blast
  have hr: "health_requests (reqs @ Get_health i # rs) = health_requests reqs + 1"
    using rs by (auto simp: health_requests_def)
  show ?case using step r hr by (intro exI[of _ reqs']) simp
qed


lemma poll_loop_env_cong:
  assumes "\<And>j. polled \<le> j \<Longrightarrow> env j = env' j"
  shows "poll_loop i e env attempt polled reqs = poll_loop i e env' attempt polled reqs"
  using assms
proof (induction "max_attempts - attempt" arbitrary: attempt polled reqs)
  case 0
  then have "\<not> attempt < max_attempts" by simp
  then show ?case by (simp add: poll_loop_exhausted)
next
  case (Suc d)
  then have lt: "attempt < max_attempts" by simp
  have same: "env polled = env' polled" using Suc.prems by simp
  show ?case
  proof (cases "green_and_matching e (env polled)")
    case True
    then show ?thesis using lt same by (simp add: poll_loop_success_step)
  next
    case False
    have d: "d = max_attempts - (attempt + 1)" using Suc.hyps(2) by simp
    have "poll_loop i e env (attempt + 1) (polled + 1) r = poll_loop i e env' (attempt + 1) (polled + 1) r" for r
      using Suc.hyps(1)[OF d] Suc.prems by simp
    then show ?thesis
      using False same lt
        poll_loop_retry_step[where env=env and polled=polled and e=e and attempt=attempt]
        poll_loop_retry_step[where env=env' and polled=polled and e=e and attempt=attempt]
      by simp
  qed
qed

lemma restore_index_accepted:
  assumes "snapshot_response w = Response True u" and "restore_response w = Response True v"
  shows "restore_index snap i e w =
           poll_loop i e (health_polls w) 0 0 [Get_snapshot snap, Post_restore snap i]"
  using assms by (simp add: restore_index_def)

text \<open>
  Claim C6. After an accepted restore request, for the poll sequence yellow, yellow, green
  with a mismatched document count, green with the matching document count,
  \<open>restore_index\<close> returns success at the 4th health poll, having sent 4 health
  requests; the green poll with the mismatched count does not return: the loop goes on
  from attempt 2 to attempt 3.
\<close>

theorem restore_index_four_polls:
  assumes "snapshot_response w = Response True u" and "restore_response w = Response True v"
    and "health (health_polls w 0) = Response True (Some ''yellow'')"
    and "health (health_polls w 1) = Response True (Some ''yellow'')"
    and "health (health_polls w 2) = Response True (Some ''green'')"
    and "doc_count (health_polls w 2) = Response True c" and "c \<noteq> expected_docs"
    and "health (health_polls w 3) = Response True (Some ''green'')"
    and "doc_count (health_polls w 3) = Response True expected_docs"
  shows "restore_index snap i expected_docs w =
           (True, 4, [Get_snapshot snap, Post_restore snap i, Get_health i, Get_health i,
                      Get_health i, Get_count PASSIVE_CLUSTER i,
                      Get_health i, Get_count PASSIVE_CLUSTER i])
       \<and> poll_loop i expected_docs (health_polls w) 2 2 reqs =
           poll_loop i expected_docs (health_polls w) 3 3
             (reqs @ [Get_health i, Get_count PASSIVE_CLUSTER i])"
proof -
  let ?env = "health_polls w"
  let ?r0 = "[Get_snapshot snap, Post_restore snap i]"
  have lt: "0 < max_attempts" "1 < max_attempts" "2 < max_attempts" "3 < max_attempts"
    by (simp_all add: max_attempts_def)
  have n0: "\<not> green_and_matching expected_docs (?env 0)"
    and n1: "\<not> green_and_matching expected_docs (?env 1)"
    and n2: "\<not> green_and_matching expected_docs (?env 2)"
    and g3: "green_and_matching expected_docs (?env 3)"
    using assms by (simp_all add: green_and_matching_def)
  have s0: "poll_loop i expected_docs ?env 0 0 ?r0 = poll_loop i expected_docs ?env 1 1 (?r0 @ [Get_health i])"
    using poll_loop_retry_step[where env="?env" and polled=0, OF lt(1) n0, of i ?r0] assms(3) by simp
  have s1: "poll_loop i expected_docs ?env 1 1 (?r0 @ [Get_health i]) =
            poll_loop i expected_docs ?env 2 2 (?r0 @ [Get_health i, Get_health i])"
    using poll_loop_retry_step[where env="?env" and polled=1, OF lt(2) n1, of i "?r0 @ [Get_health i]"]
      assms(4) by (simp add: eval_nat_numeral)
  have s2: "poll_loop i expected_docs ?env 2 2 r =
            poll_loop i expected_docs ?env 3 3 (r @ [Get_health i, Get_count PASSIVE_CLUSTER i])" for r
    using poll_loop_retry_step[where env="?env" and polled=2, OF lt(3) n2, of i r] assms(5) by (simp add: eval_nat_numeral)
  have s3: "poll_loop i expected_docs ?env 3 3 r =
            (True, 4, r @ [Get_health i, Get_count PASSIVE_CLUSTER i])" for r
    using poll_loop_success_step[where env="?env" and polled=3, OF lt(4) g3, of i r] by (simp add: eval_nat_numeral)
  have "restore_index snap i expected_docs w =
           (True, 4, [Get_snapshot snap, Post_restore snap i, Get_health i, Get_health i,
                      Get_health i, Get_count PASSIVE_CLUSTER i,
                      Get_health i, Get_count PASSIVE_CLUSTER i])"
    unfolding restore_index_accepted[OF assms(1,2)] s0 s1 s2 s3 by simp
  with s2[of reqs] show ?thesis by blast
qed

theorem restore_index_four_polls_witness:
  "snapshot_response (accepted_world four_polls) = Response True ()
   \<and> restore_response (accepted_world four_polls) = Response True ()
   \<and> health (four_polls 2) = Response True (Some ''green'')
   \<and> doc_count (four_polls 2) = Response True 5 \<and> (5 :: int) \<noteq> 7
   \<and> restore_index ''snap-1'' ''logs'' 7 (accepted_world four_polls) =
       (True, 4, [Get_snapshot ''snap-1'', Post_restore ''snap-1'' ''logs'',
                  Get_health ''logs'', Get_health ''logs'',
                  Get_health ''logs'', Get_count PASSIVE_CLUSTER ''logs'',
                  Get_health ''logs'', Get_count PASSIVE_CLUSTER ''logs''])"
  using restore_index_four_polls[of "accepted_world four_polls" "()" "()" 5 7 "''snap-1''" "''logs''" "[]"]
  by (simp add: accepted_world_def four_polls_def)

text \<open>
  Claim C7. After an accepted restore request, whenever none of the first 30 polls is green
  with a matching document count, \<open>restore_index\<close> returns the failure value
  \<open>False\<close> after exactly 30 health requests.
\<close>

theorem restore_index_timeout:
  assumes "snapshot_response w = Response True u" and "restore_response w = Response True v"
    and "\<forall>j < max_attempts. \<not> green_and_matching expected_docs (health_polls w j)"
  shows "\<exists>reqs. restore_index snap i expected_docs w = (False, 30, reqs)
               \<and> health_requests reqs = 30"
proof -
  have "\<forall>j. 0 \<le> j \<and> j < 0 + (max_attempts - 0) \<longrightarrow> \<not> green_and_matching expected_docs (health_polls w j)"
    using assms(3) by simp
  from poll_loop_timeout[OF _ this, of i "[Get_snapshot snap, Post_restore snap i]"]
  show ?thesis
    unfolding restore_index_accepted[OF assms(1,2)]
    by (simp add: max_attempts_def health_requests_def)
qed

theorem restore_index_timeout_witness:
  "snapshot_response (accepted_world never_matching) = Response True ()
   \<and> restore_response (accepted_world never_matching) = Response True ()
   \<and> list_all (\<lambda>j. \<not> green_and_matching 7 (health_polls (accepted_world never_matching) j))
        [0 ..< max_attempts]
   \<and> (\<exists>reqs. restore_index ''snap-1'' ''logs'' 7 (accepted_world never_matching) = (False, 30, reqs)
              \<and> health_requests reqs = 30)"
proof -
  have a: "snapshot_response (accepted_world never_matching) = Response True ()"
    and b: "restore_response (accepted_world never_matching) = Response True ()"
    by (simp_all add: accepted_world_def)
  have h: "\<forall>j < max_attempts. \<not> green_and_matching 7 (health_polls (accepted_world never_matching) j)"
    by (simp add: accepted_world_def never_matching_def green_and_matching_def)
  from h have l: "list_all (\<lambda>j. \<not> green_and_matching 7 (health_polls (accepted_world never_matching) j))
        [0 ..< max_attempts]"
    by (simp add: list_all_iff)
  from a b l restore_index_timeout[OF a b h, of "''snap-1''" "''logs''"] show ?thesis by blast
qed

text \<open>
  Claim C9. After an accepted restore request, every iteration of the polling loop that
  does not return success (a request exception, a response that is not OK, a status
  that is not green, or a green status whose document count is not verified) increases
  \<open>attempt\<close> by exactly one and sends one health request; \<open>restore_index\<close>
  returns a value after at most 30 health requests: success exactly when one
  of the first 30 polls is green with a matching count, and failure after exactly 30
  polls otherwise.
\<close>

theorem polling_consumes_attempts:
  assumes "snapshot_response w = Response True u" and "restore_response w = Response True v"
  shows "(\<forall>attempt polled reqs.
            attempt < max_attempts \<and> \<not> green_and_matching e (health_polls w polled) \<longrightarrow>
            (\<exists>rs. poll_loop i e (health_polls w) attempt polled reqs =
                   poll_loop i e (health_polls w) (attempt + 1) (polled + 1) (reqs @ Get_health i # rs)))
       \<and> (\<exists>ok polls reqs. restore_index snap i e w = (ok, polls, reqs)
            \<and> polls \<le> max_attempts \<and> health_requests reqs = polls
            \<and> (ok \<longleftrightarrow> (\<exists>k < max_attempts. green_and_matching e (health_polls w k)))
            \<and> (\<not> ok \<longrightarrow> polls = max_attempts))"
proof -
  let ?env = "health_polls w"
  let ?r0 = "[Get_snapshot snap, Post_restore snap i]"
  have step: "\<forall>attempt polled reqs.
            attempt < max_attempts \<and> \<not> green_and_matching e (?env polled) \<longrightarrow>
            (\<exists>rs. poll_loop i e ?env attempt polled reqs =
                   poll_loop i e ?env (attempt + 1) (polled + 1) (reqs @ Get_health i # rs))"
    using poll_loop_retry_step[where env="?env" and e=e and i=i] by blast
  have h0: "health_requests ?r0 = 0" by (simp add: health_requests_def)
  have run: "\<exists>ok polls reqs. poll_loop i e ?env 0 0 ?r0 = (ok, polls, reqs)
            \<and> polls \<le> max_attempts \<and> health_requests reqs = polls
            \<and> (ok \<longleftrightarrow> (\<exists>k < max_attempts. green_and_matching e (?env k)))
            \<and> (\<not> ok \<longrightarrow> polls = max_attempts)"
  proof (cases "\<exists>k < max_attempts. green_and_matching e (?env k)")
    case True
    define k where "k = (LEAST k. k < max_attempts \<and> green_and_matching e (?env k))"
    from True have k: "k < max_attempts \<and> green_and_matching e (?env k)"
      unfolding k_def by (rule LeastI_ex)
    have least: "\<forall>j < k. \<not> green_and_matching e (?env (0 + j))"
    proof (intro allI impI)
      fix j assume "j < k"
      then have "\<not> (j < max_attempts \<and> green_and_matching e (?env j))"
        unfolding k_def by (rule not_less_Least)
      with \<open>j < k\<close> k show "\<not> green_and_matching e (?env (0 + j))" by simp
    qed
    from k have a: "0 + k < max_attempts" and g: "green_and_matching e (?env (0 + k))" by simp_all
    from poll_loop_success[OF a least g, of i ?r0] obtain reqs' where
      "poll_loop i e ?env 0 0 ?r0 = (True, 0 + k + 1, reqs')"
      "health_requests reqs' = health_requests ?r0 + k + 1" by blast
    with True k h0 show ?thesis by (intro exI[of _ True] exI[of _ "k + 1"] exI[of _ reqs']) simp
  next
    case False
    then have "\<forall>j. 0 \<le> j \<and> j < 0 + (max_attempts - 0) \<longrightarrow> \<not> green_and_matching e (?env j)"
      by simp
    from poll_loop_timeout[OF _ this, of i ?r0] obtain reqs' where
      "poll_loop i e ?env 0 0 ?r0 = (False, 0 + (max_attempts - 0), reqs')"
      "health_requests reqs' = health_requests ?r0 + (max_attempts - 0)" by auto
    with False h0 show ?thesis
      by (intro exI[of _ False] exI[of _ max_attempts] exI[of _ reqs']) simp
  qed
  from step run show ?thesis unfolding restore_index_accepted[OF assms] by blast
qed

theorem polling_consumes_attempts_witness:
  "snapshot_response (accepted_world four_polls) = Response True ()
   \<and> restore_response (accepted_world four_polls) = Response True ()
   \<and> (\<exists>ok polls reqs. restore_index ''snap-1'' ''logs'' 7 (accepted_world four_polls) = (ok, polls, reqs)
        \<and> polls \<le> max_attempts \<and> health_requests reqs = polls
        \<and> (ok \<longleftrightarrow> (\<exists>k < max_attempts. green_and_matching 7 (health_polls (accepted_world four_polls) k)))
        \<and> (\<not> ok \<longrightarrow> polls = max_attempts))"
proof -
  have a: "snapshot_response (accepted_world four_polls) = Response True ()"
    and b: "restore_response (accepted_world four_polls) = Response True ()"
    by (simp_all add: accepted_world_def)
  from a b polling_consumes_attempts[OF a b, of 7 "''logs''" "''snap-1''"] show ?thesis by blast
qed

text \<open>
  Claim C10. When the index is green and the live document count cannot be fetched
  (\<open>get_index_doc_count\<close> returns the failure sentinel \<open>None\<close>),
  \<open>verify_restore_success\<close> reports false and the polling loop goes on with the next
  attempt, having sent the health and the count request; the run of the loop is the same
  as with a count that was fetched and does not match.
\<close>

theorem count_failure_continues_polling:
  assumes "attempt < max_attempts"
    and "health (env polled) = Response True (Some ''green'')"
    and "get_index_doc_count (doc_count (env polled)) = None"
  shows "verify_restore_success (doc_count (env polled)) expected_docs = False
       \<and> poll_loop i expected_docs env attempt polled reqs =
           poll_loop i expected_docs env (attempt + 1) (polled + 1)
             (reqs @ [Get_health i, Get_count PASSIVE_CLUSTER i])
       \<and> (\<forall>c. c \<noteq> expected_docs \<longrightarrow>
             poll_loop i expected_docs
               (env(polled := \<lparr>health = Response True (Some ''green''), doc_count = Response True c\<rparr>))
               attempt polled reqs
             = poll_loop i expected_docs env attempt polled reqs)"
proof -
  have v: "verify_restore_success (doc_count (env polled)) expected_docs = False"
    using assms(3) by (simp add: verify_restore_success_def)
  then have ngm: "\<not> green_and_matching expected_docs (env polled)"
    by (simp add: green_and_matching_verify)
  have step: "poll_loop i expected_docs env attempt polled reqs =
           poll_loop i expected_docs env (attempt + 1) (polled + 1)
             (reqs @ [Get_health i, Get_count PASSIVE_CLUSTER i])"
    using poll_loop_retry_step[where env=env and polled=polled, OF assms(1) ngm, of i reqs] assms(2) by simp
  have mm: "poll_loop i expected_docs
               (env(polled := \<lparr>health = Response True (Some ''green''), doc_count = Response True c\<rparr>))
               attempt polled reqs
             = poll_loop i expected_docs env attempt polled reqs" if "c \<noteq> expected_docs" for c
  proof -
    let ?env' = "env(polled := \<lparr>health = Response True (Some ''green''), doc_count = Response True c\<rparr>)"
    have n': "\<not> green_and_matching expected_docs (?env' polled)"
      using that by (simp add: green_and_matching_def)
    have "poll_loop i expected_docs ?env' attempt polled reqs =
           poll_loop i expected_docs ?env' (attempt + 1) (polled + 1)
             (reqs @ [Get_health i, Get_count PASSIVE_CLUSTER i])"
      using poll_loop_retry_step[where env="?env'" and polled=polled, OF assms(1) n', of i reqs] by simp
    also have "\<dots> = poll_loop i expected_docs env (attempt + 1) (polled + 1)
             (reqs @ [Get_health i, Get_count PASSIVE_CLUSTER i])"
      by (rule poll_loop_env_cong) simp
    finally show ?thesis using step by simp
  qed
  from v step mm show ?thesis by blast
qed

theorem count_failure_continues_polling_witness:
  "0 < max_attempts
   \<and> health (count_unavailable 0) = Response True (Some ''green'')
   \<and> get_index_doc_count (doc_count (count_unavailable 0)) = None
   \<and> verify_restore_success (doc_count (count_unavailable 0)) 7 = False
   \<and> poll_loop ''logs'' 7 count_unavailable 0 0 [] =
       poll_loop ''logs'' 7 count_unavailable (0 + 1) (0 + 1)
         ([] @ [Get_health ''logs'', Get_count PASSIVE_CLUSTER ''logs''])"
proof -
  have a: "0 < max_attempts" by (simp add: max_attempts_def)
  have b: "health (count_unavailable 0) = Response True (Some ''green'')"
    by (simp add: count_unavailable_def)
  have c: "get_index_doc_count (doc_count (count_unavailable 0)) = None"
    by (simp add: count_unavailable_def get_index_doc_count_def)
  from a b c count_failure_continues_polling[where env=count_unavailable and polled=0, OF a b c, of 7 "''logs''" "[]"]
  show ?thesis by blast
qed

section \<open>Properties of the run\<close>

declare wait_for_green.simps [simp del]

lemma wait_for_green_reqs:
  "\<exists>rs. snd (wait_for_green i env attempt polled reqs) = reqs @ rs \<and> set rs \<subseteq> {Get_health_wait_green i}"
proof (induction "max_attempts - attempt" arbitrary: attempt polled reqs)
  case 0
  then show ?case by (subst wait_for_green.simps) simp
next
  case (Suc d)
  then have lt: "attempt < max_attempts" and d: "d = max_attempts - (attempt + 1)" by simp_all
  from Suc.hyps(1)[OF d, of "polled + 1" "reqs @ [Get_health_wait_green i]"] obtain rs where
    rs: "snd (wait_for_green i env (attempt + 1) (polled + 1) (reqs @ [Get_health_wait_green i]))
          = (reqs @ [Get_health_wait_green i]) @ rs" "set rs \<subseteq> {Get_health_wait_green i}"
    by blast
  have eq: "wait_for_green i env attempt polled reqs =
      (if env polled = Response True ''green'' then (True, reqs @ [Get_health_wait_green i])
       else wait_for_green i env (attempt + 1) (polled + 1) (reqs @ [Get_health_wait_green i]))"
    using lt by (subst wait_for_green.simps) (auto split: response.splits)
  show ?case
  proof (cases "env polled = Response True ''green''")
    case True
    with eq show ?thesis by (intro exI[of _ "[Get_health_wait_green i]"]) simp
  next
    case False
    with eq rs show ?thesis by (intro exI[of _ "Get_health_wait_green i # rs"]) simp
  qed
qed

lemma poll_loop_reqs:
  "\<exists>rs. snd (snd (poll_loop i e env attempt polled reqs)) = reqs @ rs
        \<and> set rs \<subseteq> {Get_health i, Get_count PASSIVE_CLUSTER i}"
proof (induction "max_attempts - attempt" arbitrary: attempt polled reqs)
  case 0
  then have "\<not> attempt < max_attempts" by simp
  then show ?case by (simp add: poll_loop_exhausted)
next
  case (Suc d)
  then have lt: "attempt < max_attempts" and d: "d = max_attempts - (attempt + 1)" by simp_all
  show ?case
  proof (cases "green_and_matching e (env polled)")
    case True
    show ?thesis
      unfolding poll_loop_success_step[where env=env and polled=polled, OF lt True]
      by (intro exI[of _ "[Get_health i, Get_count PASSIVE_CLUSTER i]"]) simp
  next
    case False
    define r1 where "r1 = Get_health i #
                (if health (env polled) = Response True (Some ''green'')
                 then [Get_count PASSIVE_CLUSTER i] else [])"
    have step: "poll_loop i e env attempt polled reqs = poll_loop i e env (attempt + 1) (polled + 1) (reqs @ r1)"
      unfolding r1_def by (rule poll_loop_retry_step[where env=env and polled=polled, OF lt False])
    from Suc.hyps(1)[OF d, of "polled + 1" "reqs @ r1"] obtain rs where
      rs: "snd (snd (poll_loop i e env (attempt + 1) (polled + 1) (reqs @ r1))) = (reqs @ r1) @ rs"
        "set rs \<subseteq> {Get_health i, Get_count PASSIVE_CLUSTER i}" by blast
    have "set r1 \<subseteq> {Get_health i, Get_count PASSIVE_CLUSTER i}" by (auto simp: r1_def)
    with rs step show ?thesis by (intro exI[of _ "r1 @ rs"]) simp
  qed
qed

lemma restore_index_reqs:
  "set (snd (snd (restore_index s i e w)))
     \<subseteq> {Get_snapshot s, Post_restore s i, Get_health i, Get_count PASSIVE_CLUSTER i}"
proof -
  from poll_loop_reqs[of i e "health_polls w" 0 0 "[Get_snapshot s, Post_restore s i]"]
  have "set (snd (snd (poll_loop i e (health_polls w) 0 0 [Get_snapshot s, Post_restore s i])))
     \<subseteq> {Get_snapshot s, Post_restore s i, Get_health i, Get_count PASSIVE_CLUSTER i}"
    by auto
  then show ?thesis
    by (simp add: restore_index_def split: response.splits)
qed


lemma restore_batch_append:
  "restore_batch s l ws (xs @ ys) reqs = restore_batch s l ws ys (restore_batch s l ws xs reqs)"
  by (induction xs arbitrary: reqs) (simp_all add: Let_def split: option.splits prod.splits)

lemma restore_batch_close_fails:
  assumes "get_index_doc_count (active_count (ws idx)) = Some expected_docs"
    and "l idx \<noteq> None" and "\<not> close_index (close_response (ws idx))"
  shows "restore_batch s l ws (idx # rest) reqs =
           restore_batch s l ws rest (reqs @ [Get_count ACTIVE_CLUSTER idx, Post_close idx])"
  using assms by simp

lemma restore_batch_step_reqs:
  "\<exists>rs. restore_batch s l ws (j # rest) reqs = restore_batch s l ws rest (reqs @ Get_count ACTIVE_CLUSTER j # rs)
      \<and> set rs \<subseteq> {Post_close j, Get_snapshot s, Post_restore s j, Get_health j,
                   Get_count PASSIVE_CLUSTER j, Post_open j, Get_health_wait_green j}"
proof (cases "get_index_doc_count (active_count (ws j))")
  case None
  then show ?thesis by (intro exI[of _ "[]"]) simp
next
  case (Some e)
  show ?thesis
  proof (cases "l j \<noteq> None \<and> \<not> close_index (close_response (ws j))")
    case True
    with Some show ?thesis by (intro exI[of _ "[Post_close j]"]) simp
  next
    case False
    define c where "c = (if l j \<noteq> None then [Post_close j] else [])"
    obtain ok polls rr where r: "restore_index s j e (ws j) = (ok, polls, rr)"
      by (cases "restore_index s j e (ws j)") auto
    have rr: "set rr \<subseteq> {Get_snapshot s, Post_restore s j, Get_health j, Get_count PASSIVE_CLUSTER j}"
      using restore_index_reqs[of s j e "ws j"] r by simp
    have cs: "set c \<subseteq> {Post_close j}" by (auto simp: c_def)
    obtain gs where g: "snd (wait_for_green j (green_polls (ws j)) 0 0
            (reqs @ Get_count ACTIVE_CLUSTER j # c @ rr @ [Post_open j]))
          = (reqs @ Get_count ACTIVE_CLUSTER j # c @ rr @ [Post_open j]) @ gs"
        "set gs \<subseteq> {Get_health_wait_green j}"
      using wait_for_green_reqs by blast
    consider (a) "\<not> ok" | (b) "ok" "\<not> open_index (open_response (ws j))"
      | (c) "ok" "open_index (open_response (ws j))" by blast
    then show ?thesis
    proof cases
      case a
      with Some False r rr cs show ?thesis
        by (intro exI[of _ "c @ rr"]) (auto simp: c_def)
    next
      case b
      with Some False r rr cs show ?thesis
        by (intro exI[of _ "c @ rr @ [Post_open j]"]) (auto simp: c_def)
    next
      case c
      with Some False r rr cs g show ?thesis
        by (intro exI[of _ "c @ rr @ [Post_open j] @ gs"]) (auto simp: c_def)
    qed
  qed
qed


lemma restore_batch_no_restore_request:
  assumes "get_index_doc_count (active_count (ws idx)) = Some expected_docs"
    and "l idx \<noteq> None" and "\<not> close_index (close_response (ws idx))"
    and "Post_restore s' idx \<in> set (restore_batch s l ws batch reqs)"
  shows "Post_restore s' idx \<in> set reqs"
  using assms(4)
proof (induction batch arbitrary: reqs)
  case Nil
  then show ?case by simp
next
  case (Cons j rest)
  show ?case
  proof (cases "j = idx")
    case True
    from Cons.prems have "Post_restore s' idx \<in> set (restore_batch s l ws rest
        (reqs @ [Get_count ACTIVE_CLUSTER idx, Post_close idx]))"
      unfolding True restore_batch_close_fails[where ws=ws and idx=idx and l=l, OF assms(1-3)] .
    from Cons.IH[OF this] show ?thesis by simp
  next
    case False
    from restore_batch_step_reqs[of s l ws j rest reqs] obtain rs where
      rs: "restore_batch s l ws (j # rest) reqs =
             restore_batch s l ws rest (reqs @ Get_count ACTIVE_CLUSTER j # rs)"
        "set rs \<subseteq> {Post_close j, Get_snapshot s, Post_restore s j, Get_health j,
                   Get_count PASSIVE_CLUSTER j, Post_open j, Get_health_wait_green j}"
      by blast
    from Cons.prems rs(1) have "Post_restore s' idx \<in> set (restore_batch s l ws rest
        (reqs @ Get_count ACTIVE_CLUSTER j # rs))" by simp
    from Cons.IH[OF this] have "Post_restore s' idx \<in> set reqs \<or> Post_restore s' idx \<in> set rs"
      by auto
    with rs(2) False show ?thesis by auto
  qed
qed

lemma restore_batch_extends:
  "\<exists>rs. restore_batch s l ws batch reqs = reqs @ rs
      \<and> (\<forall>j \<in> set batch. Get_count ACTIVE_CLUSTER j \<in> set rs)"
proof (induction batch arbitrary: reqs)
  case Nil
  then show ?case by simp
next
  case (Cons j rest)
  from restore_batch_step_reqs[of s l ws j rest reqs] obtain r1 where
    r1: "restore_batch s l ws (j # rest) reqs =
           restore_batch s l ws rest (reqs @ Get_count ACTIVE_CLUSTER j # r1)"
    by blast
  from Cons.IH[of "reqs @ Get_count ACTIVE_CLUSTER j # r1"] obtain rs where
    rs: "restore_batch s l ws rest (reqs @ Get_count ACTIVE_CLUSTER j # r1)
          = (reqs @ Get_count ACTIVE_CLUSTER j # r1) @ rs"
      "\<forall>k \<in> set rest. Get_count ACTIVE_CLUSTER k \<in> set rs" by blast
  show ?case
    unfolding r1 rs(1) using rs(2)
    by (intro exI[of _ "Get_count ACTIVE_CLUSTER j # r1 @ rs"]) auto
qed

text \<open>
  Claim C8. For every batch and every index \<open>idx\<close> in it that exists locally, whose
  document count was fetched and whose close call fails: the loop sends for \<open>idx\<close> the
  count request and the close request and nothing else, then goes on with the rest of
  the batch as it would have otherwise; no restore request for \<open>idx\<close> is sent at any
  point of the loop; and every index of the batch has its attempt started, whatever
  failed before it.
\<close>

theorem close_failure_isolated:
  assumes "get_index_doc_count (active_count (ws idx)) = Some expected_docs"
    and "l idx \<noteq> None" and "\<not> close_index (close_response (ws idx))"
  shows "restore_batch s l ws (pre @ idx # post) reqs =
           restore_batch s l ws post
             (restore_batch s l ws pre reqs @ [Get_count ACTIVE_CLUSTER idx, Post_close idx])
       \<and> (\<forall>s'. Post_restore s' idx \<notin> set (restore_batch s l ws (pre @ idx # post) []))
       \<and> (\<forall>j \<in> set (pre @ idx # post).
             Get_count ACTIVE_CLUSTER j \<in> set (restore_batch s l ws (pre @ idx # post) []))"
proof -
  have a: "restore_batch s l ws (pre @ idx # post) reqs =
           restore_batch s l ws post
             (restore_batch s l ws pre reqs @ [Get_count ACTIVE_CLUSTER idx, Post_close idx])"
    unfolding restore_batch_append restore_batch_close_fails[where ws=ws and idx=idx and l=l, OF assms] ..
  have b: "\<forall>s'. Post_restore s' idx \<notin> set (restore_batch s l ws (pre @ idx # post) [])"
    using restore_batch_no_restore_request[where ws=ws and idx=idx and l=l and s=s and batch="pre @ idx # post" and reqs="[]", OF assms] by auto
  have c: "\<forall>j \<in> set (pre @ idx # post).
             Get_count ACTIVE_CLUSTER j \<in> set (restore_batch s l ws (pre @ idx # post) [])"
    using restore_batch_extends[of s l ws "pre @ idx # post" "[]"] by auto
  from a b c show ?thesis by blast
qed

theorem close_failure_isolated_witness:
  "get_index_doc_count (active_count (close_fails_worlds ''logs-a'')) = Some 7
   \<and> close_fails_local ''logs-a'' \<noteq> None
   \<and> \<not> close_index (close_response (close_fails_worlds ''logs-a''))
   \<and> restore_batch ''snap-1'' close_fails_local close_fails_worlds ([] @ ''logs-a'' # [''logs-b'']) [] =
       [Get_count ACTIVE_CLUSTER ''logs-a'', Post_close ''logs-a'',
        Get_count ACTIVE_CLUSTER ''logs-b'', Get_snapshot ''snap-1'',
        Post_restore ''snap-1'' ''logs-b'', Get_health ''logs-b'',
        Get_count PASSIVE_CLUSTER ''logs-b'', Post_open ''logs-b'',
        Get_health_wait_green ''logs-b'']"
proof -
  have a: "get_index_doc_count (active_count (close_fails_worlds ''logs-a'')) = Some 7"
    by (simp add: close_fails_worlds_def accepted_world_def get_index_doc_count_def)
  have b: "close_fails_local ''logs-a'' \<noteq> None" by (simp add: close_fails_local_def)
  have c: "\<not> close_index (close_response (close_fails_worlds ''logs-a''))"
    by (simp add: close_fails_worlds_def accepted_world_def close_index_def)
  have e: "restore_batch ''snap-1'' close_fails_local close_fails_worlds [''logs-b'']
             (restore_batch ''snap-1'' close_fails_local close_fails_worlds [] []
                @ [Get_count ACTIVE_CLUSTER ''logs-a'', Post_close ''logs-a'']) =
       [Get_count ACTIVE_CLUSTER ''logs-a'', Post_close ''logs-a'',
        Get_count ACTIVE_CLUSTER ''logs-b'', Get_snapshot ''snap-1'',
        Post_restore ''snap-1'' ''logs-b'', Get_health ''logs-b'',
        Get_count PASSIVE_CLUSTER ''logs-b'', Post_open ''logs-b'',
        Get_health_wait_green ''logs-b'']"
    by code_simp
  from a b c e close_failure_isolated[where ws=close_fails_worlds and idx="''logs-a''" and l=close_fails_local
      and s="''snap-1''" and pre="[]" and post="[''logs-b'']" and reqs="[]", OF a b c]
  show ?thesis by simp
qed

text \<open>
  Claim C5 at the run \<open>local_fetch_fails\<close>: the request for the local indices raises,
  \<open>get_local_indices\<close> returns the empty dictionary and not \<^verbatim>\<open>None\<close>, the test of
  line 338 does not fire, and \<open>main\<close> computes the selection and restores the index.
\<close>

theorem main_proceeds_when_local_fetch_fails:
  "get_local_indices (cat_indices_response local_fetch_fails) = Inr (Some Map.empty)
   \<and> main local_fetch_fails =
       Inr (Completed [''logs''],
            [Get_repository PASSIVE_CLUSTER, Get_repository_status PASSIVE_CLUSTER,
             Get_cat_snapshots, Get_snapshot_status ''snap-1'', Get_cat_indices,
             Get_count ACTIVE_CLUSTER ''logs'', Get_snapshot ''snap-1'',
             Post_restore ''snap-1'' ''logs'', Get_health ''logs'',
             Get_count PASSIVE_CLUSTER ''logs'', Post_open ''logs'',
             Get_health_wait_green ''logs''])"
proof -
  have "get_local_indices (cat_indices_response local_fetch_fails) = Inr (Some Map.empty)"
    by (simp add: local_fetch_fails_def get_local_indices_def)
  moreover have "main local_fetch_fails =
       Inr (Completed [''logs''],
            [Get_repository PASSIVE_CLUSTER, Get_repository_status PASSIVE_CLUSTER,
             Get_cat_snapshots, Get_snapshot_status ''snap-1'', Get_cat_indices,
             Get_count ACTIVE_CLUSTER ''logs'', Get_snapshot ''snap-1'',
             Post_restore ''snap-1'' ''logs'', Get_health ''logs'',
             Get_count PASSIVE_CLUSTER ''logs'', Post_open ''logs'',
             Get_health_wait_green ''logs''])"
    by code_simp
  ultimately show ?thesis by blast
qed

text \<open>
  The other prerequisites do abort the run: an unreachable repository, no snapshot, an
  empty snapshot-side map; and \<open>get_local_indices\<close> never returns \<^verbatim>\<open>None\<close>.
\<close>

lemma main_aborts_on_prerequisites:
  "(\<not> fst (verify_repository PASSIVE_CLUSTER (repository_response w) (repository_status_response w))
      \<longrightarrow> main w = Inr (Repository_not_found,
             snd (verify_repository PASSIVE_CLUSTER (repository_response w) (repository_status_response w))))
   \<and> (fst (verify_repository PASSIVE_CLUSTER (repository_response w) (repository_status_response w))
      \<and> get_latest_snapshot (cat_snapshots_response w) = None
      \<longrightarrow> main w = Inr (No_latest_snapshot,
             snd (verify_repository PASSIVE_CLUSTER (repository_response w) (repository_status_response w))
               @ [Get_cat_snapshots]))
   \<and> (fst (verify_repository PASSIVE_CLUSTER (repository_response w) (repository_status_response w))
      \<and> get_latest_snapshot (cat_snapshots_response w) = Some snapshot \<and> snapshot \<noteq> []
      \<and> get_snapshot_indices (snapshot_status_response w snapshot) = []
      \<longrightarrow> main w = Inr (No_snapshot_indices,
             snd (verify_repository PASSIVE_CLUSTER (repository_response w) (repository_status_response w))
               @ [Get_cat_snapshots, Get_snapshot_status snapshot]))"
  by (auto simp: main_def split: prod.splits)

lemma get_local_indices_never_None: "get_local_indices r \<noteq> Inr None"
  by (simp add: get_local_indices_def split: response.splits sum.splits)

section \<open>Properties of the size parsing\<close>

lemma two_powi_pos: "(0::rat) < 2 powi e"
  by (simp add: power_int_def)

lemma two_powi_mono: "a \<le> b \<Longrightarrow> (2::rat) powi a \<le> 2 powi b"
  by (rule power_int_increasing) simp_all

lemma two_powi_less_imp: "(2::rat) powi a < 2 powi b \<Longrightarrow> a < b"
  using two_powi_mono[of b a] by (cases "a < b") auto

lemma binade_bounds:
  assumes "0 < x"
  shows "2 powi (binade x) \<le> x \<and> x < 2 powi (binade x + 1)"
proof -
  obtain a b where q: "quotient_of x = (a, b)" by (cases "quotient_of x") auto
  then have b: "0 < b" by (rule quotient_of_denom_pos)
  from q have x: "x = of_int a / of_int b" by (rule quotient_of_div)
  with assms b have a: "0 < a" by (simp add: zero_less_divide_iff)
  define d where "d = bitlen a - bitlen b"
  from bitlen_bounds[OF a] have a1: "2 ^ nat (bitlen a - 1) \<le> a" and a2: "a < 2 ^ nat (bitlen a)" by simp_all
  from bitlen_bounds[OF b] have b1: "2 ^ nat (bitlen b - 1) \<le> b" and b2: "b < 2 ^ nat (bitlen b)" by simp_all
  have la: "1 \<le> bitlen a" using a by (simp add: bitlen_alt_def)
  have lb: "1 \<le> bitlen b" using b by (simp add: bitlen_alt_def)
  have ra1: "(2::rat) powi (bitlen a - 1) \<le> of_int a"
  proof -
    have "(of_int (2 ^ nat (bitlen a - 1)) :: rat) \<le> of_int a" using a1 by (simp only: of_int_le_iff)
    then show ?thesis using la by (simp add: power_int_def)
  qed
  have ra2: "(of_int a :: rat) < 2 powi (bitlen a)"
  proof -
    have "(of_int a :: rat) < of_int (2 ^ nat (bitlen a))" using a2 by (simp only: of_int_less_iff)
    then show ?thesis using la by (simp add: power_int_def)
  qed
  have rb1: "(2::rat) powi (bitlen b - 1) \<le> of_int b"
  proof -
    have "(of_int (2 ^ nat (bitlen b - 1)) :: rat) \<le> of_int b" using b1 by (simp only: of_int_le_iff)
    then show ?thesis using lb by (simp add: power_int_def)
  qed
  have rb2: "(of_int b :: rat) < 2 powi (bitlen b)"
  proof -
    have "(of_int b :: rat) < of_int (2 ^ nat (bitlen b))" using b2 by (simp only: of_int_less_iff)
    then show ?thesis using lb by (simp add: power_int_def)
  qed
  have bpos: "(0::rat) < of_int b" using b by simp
  have up: "x < 2 powi (d + 1)"
  proof -
    have "of_int a < (2::rat) powi (bitlen a)" by (rule ra2)
    also have "\<dots> = 2 powi (d + 1) * 2 powi (bitlen b - 1)"
      by (simp add: d_def flip: power_int_add)
    also have "\<dots> \<le> 2 powi (d + 1) * of_int b"
      using rb1 two_powi_pos[of "d + 1"] by (simp add: mult_left_mono)
    finally show ?thesis using bpos by (simp add: x pos_divide_less_eq)
  qed
  have lo: "2 powi (d - 1) < x"
  proof -
    have "2 powi (d - 1) * of_int b < (2::rat) powi (d - 1) * 2 powi (bitlen b)"
      using rb2 two_powi_pos[of "d - 1"] by (simp add: mult_strict_left_mono)
    also have "\<dots> = 2 powi (bitlen a - 1)"
      by (simp add: d_def flip: power_int_add)
    also have "\<dots> \<le> of_int a" by (rule ra1)
    finally show ?thesis using bpos by (simp add: x pos_less_divide_eq)
  qed
  show ?thesis
  proof (cases "2 powi d \<le> x")
    case True
    then have "binade x = d" by (simp add: binade_def q d_def)
    with True up show ?thesis by simp
  next
    case False
    then have "binade x = d - 1" by (simp add: binade_def q d_def)
    with False lo show ?thesis by simp
  qed
qed


lemma round_half_even_of_int: "round_half_even (of_int k) = k"
  by (simp add: round_half_even_def)

lemma round_half_even_bound:
  assumes "\<bar>y\<bar> < of_int N"
  shows "\<bar>round_half_even y\<bar> \<le> N"
proof -
  have f1: "\<lfloor>y\<rfloor> < N" using assms by (simp add: floor_less_iff abs_less_iff)
  have "- of_int N < y" using assms by (simp add: abs_less_iff)
  then have "of_int (- N) \<le> y" by simp
  then have f2: "- N \<le> \<lfloor>y\<rfloor>" by (simp only: le_floor_iff)
  have "round_half_even y = \<lfloor>y\<rfloor> \<or> round_half_even y = \<lfloor>y\<rfloor> + 1"
    by (simp add: round_half_even_def Let_def)
  with f1 f2 show ?thesis by auto
qed

lemma is_double_round:
  assumes "is_double v"
  shows "round_double v = Finite v"
proof (cases "v = 0")
  case True
  then show ?thesis by (simp add: round_double_def)
next
  case False
  from assms obtain m e where v: "v = of_int m * 2 powi e" and m: "\<bar>m\<bar> < 2 ^ 53"
    and e: "- 1074 \<le> e" and fin: "\<bar>v\<bar> < 2 powi 1024"
    unfolding is_double_def by blast
  define e' where "e' = max (binade \<bar>v\<bar>) (- 1022)"
  define u :: rat where "u = 2 powi (e' - 52)"
  have upos: "0 < u" unfolding u_def by (rule two_powi_pos)
  have j: "0 \<le> e - (e' - 52)"
  proof (cases "binade \<bar>v\<bar> \<le> - 1022")
    case True
    then have "e' = - 1022" by (simp add: e'_def)
    with e show ?thesis by simp
  next
    case False
    then have e'': "e' = binade \<bar>v\<bar>" by (simp add: e'_def)
    from \<open>v \<noteq> 0\<close> have "0 < \<bar>v\<bar>" by simp
    from binade_bounds[OF this] have "2 powi e' \<le> \<bar>v\<bar>" by (simp add: e'')
    also have "\<bar>v\<bar> = of_int \<bar>m\<bar> * 2 powi e"
      using two_powi_pos[of e] by (simp add: v abs_mult)
    also have "\<dots> < of_int (2 ^ 53) * 2 powi e"
      using m two_powi_pos[of e] by (intro mult_strict_right_mono) (simp_all only: of_int_less_iff)
    also have "\<dots> = 2 powi (53 + e)" by (simp add: power_int_add)
    finally have "e' < 53 + e" by (rule two_powi_less_imp)
    then show ?thesis by simp
  qed
  have "v / u = of_int m * (2 powi e / 2 powi (e' - 52))" by (simp add: v u_def)
  also have "2 powi e / 2 powi (e' - 52) = (2::rat) powi (e - (e' - 52))"
    by (simp add: power_int_diff)
  also have "\<dots> = of_int (2 ^ nat (e - (e' - 52)))" using j by (simp add: power_int_def)
  finally have q: "v / u = of_int (m * 2 ^ nat (e - (e' - 52)))" by simp
  have "of_int (round_half_even (v / u)) * u = v"
    unfolding q round_half_even_of_int using upos q by (simp add: field_simps)
  then show ?thesis
    using False fin by (simp add: round_double_def Let_def e'_def u_def)
qed

lemma round_double_is_double:
  assumes "round_double x = Finite d"
  shows "is_double d"
proof (cases "x = 0")
  case True
  with assms have "d = 0" by (simp add: round_double_def)
  then show ?thesis unfolding is_double_def
    by (intro exI[of _ 0]) (simp add: two_powi_pos)
next
  case False
  define e' where "e' = max (binade \<bar>x\<bar>) (- 1022)"
  define u :: rat where "u = 2 powi (e' - 52)"
  define k where "k = round_half_even (x / u)"
  have upos: "0 < u" unfolding u_def by (rule two_powi_pos)
  from assms False have d: "d = of_int k * u" and fin: "\<bar>d\<bar> < 2 powi 1024"
    by (auto simp: round_double_def Let_def e'_def u_def k_def split: if_splits)
  from False have "0 < \<bar>x\<bar>" by simp
  from binade_bounds[OF this] have "\<bar>x\<bar> < 2 powi (binade \<bar>x\<bar> + 1)" by simp
  also have "\<dots> \<le> 2 powi (e' + 1)" by (rule two_powi_mono) (simp add: e'_def)
  also have "\<dots> = of_int (2 ^ 53) * u"
    using power_int_add[of "2::rat" 53 "e' - 52"] by (simp add: u_def add.commute)
  finally have "\<bar>x\<bar> / u < of_int (2 ^ 53)" using upos by (simp add: pos_divide_less_eq)
  then have "\<bar>x / u\<bar> < of_int (2 ^ 53)" using upos by (simp add: abs_divide)
  then have kb: "\<bar>k\<bar> \<le> 2 ^ 53" unfolding k_def by (rule round_half_even_bound)
  have e'lo: "- 1022 \<le> e'" by (simp add: e'_def)
  show ?thesis
  proof (cases "\<bar>k\<bar> < 2 ^ 53")
    case True
    with d fin e'lo show ?thesis unfolding is_double_def u_def
      by (intro exI[of _ k] exI[of _ "e' - 52"]) simp
  next
    case False
    with kb have ak: "\<bar>k\<bar> = 2 ^ 53" by simp
    have two: "2 * u = 2 powi (e' - 51)"
      using power_int_add[of "2::rat" 1 "e' - 52"] by (simp add: u_def)
    have e51: "- 1074 \<le> e' - 51" using e'lo by simp
    show ?thesis
    proof (cases "0 \<le> k")
      case True
      with ak have "k = 2 ^ 53" by simp
      then have "d = of_int (2 ^ 52) * (2 * u)" by (simp add: d)
      then have dd: "d = of_int (2 ^ 52) * 2 powi (e' - 51)" by (simp only: two)
      have mm: "\<bar>2 ^ 52 :: int\<bar> < 2 ^ 53" by simp
      show ?thesis unfolding is_double_def
        using dd mm e51 fin by blast
    next
      case False
      with ak have "k = - (2 ^ 53)" by simp
      then have "d = of_int (- (2 ^ 52)) * (2 * u)" by (simp add: d)
      then have dd: "d = of_int (- (2 ^ 52)) * 2 powi (e' - 51)" by (simp only: two)
      have mm: "\<bar>- (2 ^ 52) :: int\<bar> < 2 ^ 53" by simp
      show ?thesis unfolding is_double_def
        using dd mm e51 fin by blast
    qed
  qed
qed

lemma is_double_scale:
  assumes "is_double d" and "\<bar>d * 2 ^ j\<bar> < 2 powi 1024"
  shows "is_double (d * 2 ^ j)"
proof -
  from assms(1) obtain m e where v: "d = of_int m * 2 powi e" and m: "\<bar>m\<bar> < 2 ^ 53"
    and e: "- 1074 \<le> e"
    unfolding is_double_def by blast
  have "d * 2 ^ j = of_int m * 2 powi (e + int j)" by (simp add: v power_int_add)
  with m e assms(2) show ?thesis unfolding is_double_def
    by (intro exI[of _ m] exI[of _ "e + int j"]) simp
qed

lemma is_digit_cases:
  assumes "is_digit c"
  shows "c \<noteq> CHR ''.'' \<and> c \<noteq> CHR ''_'' \<and> c \<noteq> CHR ''+'' \<and> c \<noteq> CHR ''-''
     \<and> c \<noteq> CHR ''b'' \<and> \<not> is_space c \<and> lower c \<noteq> CHR ''i'' \<and> lower c \<noteq> CHR ''n''"
proof -
  from assms have "c = CHR ''0'' \<or> c = CHR ''1'' \<or> c = CHR ''2'' \<or> c = CHR ''3''
    \<or> c = CHR ''4'' \<or> c = CHR ''5'' \<or> c = CHR ''6'' \<or> c = CHR ''7'' \<or> c = CHR ''8''
    \<or> c = CHR ''9''"
    by (simp add: is_digit_def)
  then show ?thesis
    by (elim disjE) (simp_all add: is_space_def lower_def)
qed

lemma number_char_cases:
  assumes "number_char c"
  shows "c \<noteq> CHR ''_'' \<and> c \<noteq> CHR ''+'' \<and> c \<noteq> CHR ''-''
     \<and> c \<noteq> CHR ''b'' \<and> \<not> is_space c \<and> lower c \<noteq> CHR ''i'' \<and> lower c \<noteq> CHR ''n''"
proof (cases "is_digit c")
  case True
  then show ?thesis using is_digit_cases by blast
next
  case False
  with assms have "c = CHR ''.''" by (simp add: number_char_def)
  then show ?thesis by (simp add: is_space_def lower_def)
qed

lemma strip_id:
  assumes "s \<noteq> []" and "\<not> is_space (hd s)" and "\<not> is_space (last s)"
  shows "strip s = s"
proof -
  have a: "dropWhile is_space s = s" using assms(1,2) by (cases s) simp_all
  have "rev s \<noteq> []" using assms(1) by simp
  moreover have "\<not> is_space (hd (rev s))" using assms(1,3) by (simp add: hd_rev)
  ultimately have "dropWhile is_space (rev s) = rev s" by (cases "rev s") simp_all
  with a show ?thesis by (simp add: strip_def)
qed

lemma remove_underscores_id:
  "CHR ''_'' \<notin> set s \<Longrightarrow> prev \<noteq> Some CHR ''_'' \<Longrightarrow> remove_underscores prev s = Some s"
proof (induction s arbitrary: prev)
  case Nil
  then show ?case by simp
next
  case (Cons c cs)
  then have "c \<noteq> CHR ''_''" and "CHR ''_'' \<notin> set cs" by (simp_all add: eq_commute)
  moreover from this Cons.IH[of "Some c"] have "remove_underscores (Some c) cs = Some cs" by simp
  ultimately show ?case using Cons.prems(2) by simp
qed

lemma py_float_number:
  assumes "list_all number_char s" and "s \<noteq> []"
  shows "py_float s = (case parse_decimal s of None \<Rightarrow> Inl ValueError
                        | Some q \<Rightarrow> Inr (round_double q))"
proof -
  from assms obtain c cs where s: "s = c # cs" by (cases s) simp_all
  with assms(1) have c: "number_char c" by simp
  have "last s \<in> set s" using assms(2) by simp
  with assms(1) have l: "number_char (last s)" by (simp add: list_all_iff)
  have hs: "\<not> is_space (hd s)" using number_char_cases[OF c] by (simp add: s)
  have ls: "\<not> is_space (last s)" using number_char_cases[OF l] by simp
  have st: "strip s = s" using assms(2) hs ls by (rule strip_id)
  have "\<forall>x \<in> set s. x \<noteq> CHR ''_''"
    using assms(1) number_char_cases by (simp add: list_all_iff)
  then have "CHR ''_'' \<notin> set s" by blast
  then have ru: "remove_underscores None s = Some s" by (simp add: remove_underscores_id)
  have sg: "split_sign s = (False, s)" using number_char_cases[OF c] by (simp add: s split_sign_def)
  have lw: "map lower s \<noteq> ''inf''" "map lower s \<noteq> ''infinity''" "map lower s \<noteq> ''nan''"
    using number_char_cases[OF c] by (simp_all add: s)
  show ?thesis by (simp add: py_float_def st ru sg lw cong: option.case_cong)
qed

lemma parse_decimal_point:
  assumes "list_all is_digit ip" and "list_all is_digit fp" and "ip @ fp \<noteq> []"
  shows "parse_decimal (ip @ CHR ''.'' # fp) = Some (decimal_value ip fp)"
proof -
  have nd: "\<not> is_digit CHR ''.''" by (simp add: is_digit_def)
  have t1: "takeWhile is_digit (ip @ CHR ''.'' # fp) = ip"
    using assms(1) nd by (simp add: takeWhile_append2 list_all_iff)
  have d1: "dropWhile is_digit (ip @ CHR ''.'' # fp) = CHR ''.'' # fp"
    using assms(1) nd by (simp add: dropWhile_append2 list_all_iff)
  have t2: "takeWhile is_digit fp = fp" using assms(2) by (simp add: list_all_iff)
  have d2: "dropWhile is_digit fp = []" using assms(2) by (simp add: list_all_iff)
  have pw: "(10::rat) powi (- int (length fp)) = 1 / 10 ^ length fp"
    by (simp add: power_int_minus divide_inverse)
  show ?thesis
    using assms(3) by (simp add: parse_decimal_def t1 d1 t2 d2 Let_def decimal_value_def pw)
qed

lemma parse_decimal_integer:
  assumes "list_all is_digit ip" and "ip \<noteq> []"
  shows "parse_decimal ip = Some (decimal_value ip [])"
proof -
  have t1: "takeWhile is_digit ip = ip" using assms(1) by (simp add: list_all_iff)
  have d1: "dropWhile is_digit ip = []" using assms(1) by (simp add: list_all_iff)
  show ?thesis
    using assms(2) by (simp add: parse_decimal_def t1 d1 Let_def decimal_value_def)
qed


lemma round_half_even_nonneg: "0 \<le> y \<Longrightarrow> 0 \<le> round_half_even y"
  by (simp add: round_half_even_def Let_def)

lemma round_double_nonneg:
  assumes "0 \<le> x" and "round_double x = Finite d"
  shows "0 \<le> d"
proof (cases "x = 0")
  case True
  with assms(2) show ?thesis by (simp add: round_double_def)
next
  case False
  define u :: rat where "u = 2 powi (max (binade \<bar>x\<bar>) (- 1022) - 52)"
  have upos: "0 < u" unfolding u_def by (rule two_powi_pos)
  from assms(2) False have d: "d = of_int (round_half_even (x / u)) * u"
    by (simp add: round_double_def Let_def u_def split: if_splits)
  have "0 \<le> x / u" using assms(1) upos by simp
  then have "0 \<le> round_half_even (x / u)" by (rule round_half_even_nonneg)
  with upos show ?thesis by (simp add: d)
qed

lemma float_mul_exact:
  assumes "round_double x = Finite d" and "\<bar>d * 2 ^ j\<bar> < 2 powi 1024"
  shows "float_mul (Finite d) (2 ^ j) = Finite (d * 2 ^ j)"
proof -
  have "is_double d" using assms(1) by (rule round_double_is_double)
  then have "is_double (d * 2 ^ j)" using assms(2) by (rule is_double_scale)
  then have "round_double (d * 2 ^ j) = Finite (d * 2 ^ j)" by (rule is_double_round)
  then show ?thesis by (simp add: float_mul_def)
qed

lemma decimal_value_nonneg: "0 \<le> decimal_value ip fp"
  by (simp add: decimal_value_def)

lemma scaled_bytes:
  assumes "round_double (decimal_value ip fp) = Finite d" and "d * 2 ^ j < 2 ^ 1024"
  shows "int_of_float (float_mul (Finite d) (2 ^ j)) = Inr \<lfloor>d * 2 ^ j\<rfloor>"
proof -
  have d0: "0 \<le> d" using decimal_value_nonneg assms(1) by (rule round_double_nonneg)
  then have p0: "0 \<le> d * 2 ^ j" by simp
  with assms(2) have "\<bar>d * 2 ^ j\<bar> < 2 powi 1024" by simp
  from float_mul_exact[OF assms(1) this] p0 show ?thesis by (simp add: int_of_float_def)
qed

lemma endswith_last:
  assumes "endswith s [c]"
  shows "last s = c"
proof -
  define k where "k = length s - length [c]"
  from assms have d: "drop k s = [c]" unfolding endswith_def k_def by blast
  have "take k s @ drop k s = s" by (rule append_take_drop_id)
  then have "s = take k s @ [c]" unfolding d by (rule sym)
  then show ?thesis by (metis last_snoc)
qed

lemma size_to_bytes_suffixed:
  assumes "py_float num = Inr x"
  shows "size_to_bytes (num @ ''kb'') = int_of_float (float_mul x 1024)"
    and "size_to_bytes (num @ ''mb'') = int_of_float (float_mul x (1024 ^ 2))"
    and "size_to_bytes (num @ ''gb'') = int_of_float (float_mul x (1024 ^ 3))"
    and "size_to_bytes (num @ ''tb'') = int_of_float (float_mul x (1024 ^ 4))"
  using assms by (simp_all add: size_to_bytes_def endswith_def)

lemma py_int_digits:
  assumes "list_all is_digit ds" and "ds \<noteq> []" and "length ds \<le> int_max_str_digits"
  shows "py_int ds = Inr (int (digits_value ds))"
proof -
  from assms obtain c cs where s: "ds = c # cs" by (cases ds) simp_all
  with assms(1) have c: "is_digit c" by simp
  have "last ds \<in> set ds" using assms(2) by simp
  with assms(1) have l: "is_digit (last ds)" by (simp add: list_all_iff)
  have hs: "\<not> is_space (hd ds)" using is_digit_cases[OF c] by (simp add: s)
  have ls: "\<not> is_space (last ds)" using is_digit_cases[OF l] by simp
  have st: "strip ds = ds" using assms(2) hs ls by (rule strip_id)
  have "\<forall>x \<in> set ds. x \<noteq> CHR ''_''"
    using assms(1) is_digit_cases by (simp add: list_all_iff)
  then have "CHR ''_'' \<notin> set ds" by blast
  then have ru: "remove_underscores None ds = Some ds" by (simp add: remove_underscores_id)
  have sg: "split_sign ds = (False, ds)" using is_digit_cases[OF c] by (simp add: s split_sign_def)
  show ?thesis using assms by (simp add: py_int_def st ru sg)
qed

lemma size_to_bytes_digits:
  assumes "list_all is_digit ds" and "ds \<noteq> []" and "length ds \<le> int_max_str_digits"
  shows "size_to_bytes ds = Inr (int (digits_value ds))"
proof -
  have "last ds \<in> set ds" using assms(2) by simp
  with assms(1) have "is_digit (last ds)" by (simp add: list_all_iff)
  then have "last ds \<noteq> CHR ''b''" using is_digit_cases by blast
  then have "\<not> endswith ds ''b''" using endswith_last[of ds "CHR ''b''"] by blast
  then show ?thesis using py_int_digits[OF assms] by (simp add: size_to_bytes_def)
qed

lemma py_float_decimal:
  assumes "list_all is_digit ip" and "list_all is_digit fp" and "ip @ fp \<noteq> []"
    and "num = ip @ CHR ''.'' # fp \<or> (fp = [] \<and> num = ip)"
  shows "py_float num = Inr (round_double (decimal_value ip fp))"
proof -
  have a: "list_all number_char ip" "list_all number_char fp"
    using assms(1,2) by (simp_all add: list_all_iff number_char_def)
  from assms(4) show ?thesis
  proof
    assume n: "num = ip @ CHR ''.'' # fp"
    then have "list_all number_char num" using a by (simp add: number_char_def)
    moreover have "num \<noteq> []" using n by simp
    ultimately show ?thesis
      using parse_decimal_point[OF assms(1-3)] by (simp add: py_float_number n)
  next
    assume n: "fp = [] \<and> num = ip"
    with assms(3) have "ip \<noteq> []" by simp
    with n a show ?thesis
      using parse_decimal_integer[OF assms(1) \<open>ip \<noteq> []\<close>] by (simp add: py_float_number)
  qed
qed

text \<open>
  Claim C4, amended. The size-parsing step (\<open>store_size_bytes\<close>) maps a decimal
  number (digits, with or without a point) immediately followed by one of the
  lower-case suffixes \<^verbatim>\<open>kb\<close>, \<^verbatim>\<open>mb\<close>, \<^verbatim>\<open>gb\<close>, \<^verbatim>\<open>tb\<close> to the integer part of
  \<open>d * 1024 ^ n\<close> for \<open>n\<close> = 1, 2, 3, 4, where \<open>d\<close> is the binary64 number nearest to
  the number, provided the product is below \<open>2 ^ 1024\<close>; it maps a string of at most
  4300 digits to the integer it denotes; and it maps an absent size, a null, the empty
  string, \<^verbatim>\<open>bogus\<close> and \<^verbatim>\<open>1.5GB\<close> to 0, in each case without an exception. The bare
  suffix \<^verbatim>\<open>b\<close> is left out of the statement.
\<close>

theorem size_parsing_amended:
  assumes "list_all is_digit ip" and "list_all is_digit fp" and "ip @ fp \<noteq> []"
    and "num = ip @ CHR ''.'' # fp \<or> (fp = [] \<and> num = ip)"
    and "(suffix, n) \<in> set [(''kb'', 1), (''mb'', 2), (''gb'', 3), (''tb'', 4 :: nat)]"
    and "round_double (decimal_value ip fp) = Finite d"
    and "d * 1024 ^ n < 2 ^ 1024"
    and "list_all is_digit ds" and "ds \<noteq> []" and "length ds \<le> int_max_str_digits"
  shows "store_size_bytes (Some (JString (num @ suffix))) = Inr \<lfloor>d * 1024 ^ n\<rfloor>
       \<and> store_size_bytes (Some (JString ds)) = Inr (int (digits_value ds))
       \<and> store_size_bytes None = Inr 0
       \<and> store_size_bytes (Some JNull) = Inr 0
       \<and> store_size_bytes (Some (JString [])) = Inr 0
       \<and> store_size_bytes (Some (JString ''bogus'')) = Inr 0
       \<and> store_size_bytes (Some (JString ''1.5GB'')) = Inr 0"
proof -
  have pf: "py_float num = Inr (Finite d)"
    using py_float_decimal[OF assms(1-4)] assms(6) by simp
  have sc: "int_of_float (float_mul (Finite d) (1024 ^ m)) = Inr \<lfloor>d * 1024 ^ m\<rfloor>"
    if "d * 1024 ^ m < 2 ^ 1024" for m
  proof -
    have e1: "(2::int) ^ (10 * m) = 1024 ^ m" and e2: "(2::rat) ^ (10 * m) = 1024 ^ m"
      by (simp_all add: power_mult)
    from that have "d * 2 ^ (10 * m) < 2 ^ 1024" by (simp only: e2)
    from scaled_bytes[OF assms(6) this] show ?thesis by (simp only: e1 e2)
  qed
  from assms(5) have "(suffix = ''kb'' \<and> n = 1) \<or> (suffix = ''mb'' \<and> n = 2)
      \<or> (suffix = ''gb'' \<and> n = 3) \<or> (suffix = ''tb'' \<and> n = 4)" by simp
  then have a: "store_size_bytes (Some (JString (num @ suffix))) = Inr \<lfloor>d * 1024 ^ n\<rfloor>"
  proof (elim disjE conjE)
    assume h: "suffix = ''kb''" "n = 1"
    have "size_to_bytes (num @ ''kb'') = Inr \<lfloor>d * 1024 ^ 1\<rfloor>"
      using assms(7) sc[of 1] size_to_bytes_suffixed(1)[OF pf] by (simp add: h)
    then show ?thesis by (simp add: store_size_bytes_def h)
  next
    assume h: "suffix = ''mb''" "n = 2"
    have "size_to_bytes (num @ ''mb'') = Inr \<lfloor>d * 1024 ^ 2\<rfloor>"
      using assms(7) sc[of 2] size_to_bytes_suffixed(2)[OF pf] by (simp only: h)
    then show ?thesis by (simp add: store_size_bytes_def h)
  next
    assume h: "suffix = ''gb''" "n = 3"
    have "size_to_bytes (num @ ''gb'') = Inr \<lfloor>d * 1024 ^ 3\<rfloor>"
      using assms(7) sc[of 3] size_to_bytes_suffixed(3)[OF pf] by (simp only: h)
    then show ?thesis by (simp add: store_size_bytes_def h)
  next
    assume h: "suffix = ''tb''" "n = 4"
    have "size_to_bytes (num @ ''tb'') = Inr \<lfloor>d * 1024 ^ 4\<rfloor>"
      using assms(7) sc[of 4] size_to_bytes_suffixed(4)[OF pf] by (simp only: h)
    then show ?thesis by (simp add: store_size_bytes_def h)
  qed
  have b: "store_size_bytes (Some (JString ds)) = Inr (int (digits_value ds))"
    using size_to_bytes_digits[OF assms(8-10)] assms(9) by (simp add: store_size_bytes_def)
  have c: "store_size_bytes None = Inr 0" by code_simp
  have d: "store_size_bytes (Some JNull) = Inr 0" by (simp add: store_size_bytes_def)
  have e: "store_size_bytes (Some (JString [])) = Inr 0" by (simp add: store_size_bytes_def)
  have f: "store_size_bytes (Some (JString ''bogus'')) = Inr 0" by code_simp
  have g: "store_size_bytes (Some (JString ''1.5GB'')) = Inr 0" by code_simp
  from a b c d e f g show ?thesis by blast
qed

theorem size_parsing_amended_witness:
  "list_all is_digit ''1'' \<and> list_all is_digit ''5''
   \<and> round_double (decimal_value ''1'' ''5'') = Finite (3 / 2)
   \<and> (3 / 2 :: rat) * 1024 ^ 3 < 2 ^ 1024
   \<and> list_all is_digit ''42'' \<and> length ''42'' \<le> int_max_str_digits
   \<and> store_size_bytes (Some (JString ''1.5gb'')) = Inr 1610612736
   \<and> store_size_bytes (Some (JString ''42'')) = Inr 42"
proof -
  have h1: "list_all is_digit ''1''" and h2: "list_all is_digit ''5''" and h3: "''1'' @ ''5'' \<noteq> []"
    and h4: "''1.5'' = ''1'' @ CHR ''.'' # ''5'' \<or> (''5'' = [] \<and> ''1.5'' = ''1'')"
    and h5: "(''gb'', 3) \<in> set [(''kb'', 1), (''mb'', 2), (''gb'', 3), (''tb'', 4 :: nat)]"
    and h8: "list_all is_digit ''42''" and h9: "''42'' \<noteq> []"
    and h10: "length ''42'' \<le> int_max_str_digits"
    by (simp_all add: is_digit_def int_max_str_digits_def)
  have h6: "round_double (decimal_value ''1'' ''5'') = Finite (3 / 2)" by code_simp
  have h7: "(3 / 2 :: rat) * 1024 ^ 3 < 2 ^ 1024" by simp
  have v1: "\<lfloor>(3 / 2 :: rat) * 1024 ^ 3\<rfloor> = 1610612736" by simp
  have v2: "int (digits_value ''42'') = 42" by code_simp
  from size_parsing_amended[OF h1 h2 h3 h4 h5 h6 h7 h8 h9 h10] v1 v2
  have "store_size_bytes (Some (JString ''1.5gb'')) = Inr 1610612736
      \<and> store_size_bytes (Some (JString ''42'')) = Inr 42" by simp
  with h1 h2 h6 h7 h8 h10 show ?thesis by blast
qed

text \<open>
  Claim C4, as stated, fails: the suffix is matched in lower case only, so that
  \<^verbatim>\<open>1.5GB\<close> gives 0 where \<^verbatim>\<open>1.5gb\<close> gives \<open>1.5 * 1024 ^ 3\<close>.
\<close>

theorem size_parsing_counterexample:
  "store_size_bytes (Some (JString ''1.5GB'')) = Inr 0
   \<and> store_size_bytes (Some (JString ''1.5gb'')) = Inr 1610612736"
  by code_simp

text \<open>
  With the bare suffix \<^verbatim>\<open>b\<close>, \<^verbatim>\<open>size[:-2]\<close> drops the last digit of the number as
  well: \<^verbatim>\<open>42b\<close> gives 4, and \<^verbatim>\<open>7b\<close> gives 0 through the \<^verbatim>\<open>ValueError\<close> of
  \<^verbatim>\<open>float('')\<close>. An infinity is not caught: \<^verbatim>\<open>int\<close> raises \<^verbatim>\<open>OverflowError\<close>.
\<close>

lemma size_parsing_bare_b:
  "store_size_bytes (Some (JString ''42b'')) = Inr 4
   \<and> store_size_bytes (Some (JString ''7b'')) = Inr 0"
  by code_simp

lemma size_parsing_overflow:
  "store_size_bytes (Some (JString ''infkb'')) = Inl OverflowError"
  by code_simp

text \<open>A number that a binary64 number holds exactly is its own nearest one.\<close>

lemma is_double_exact:
  assumes "is_double (decimal_value ip fp)"
  shows "round_double (decimal_value ip fp) = Finite (decimal_value ip fp)"
  using assms by (rule is_double_round)

end
